theory Spec2Isabelle
  imports Main "HOL-Library.Word"
begin

unbundle bit_operations_syntax

section \<open>Bytes and control characters\<close>

text \<open>
  A \<open>Uint8Array\<close> is a list of 8-bit words. \<open>subarray\<close> clamps both indices to the
  length of the array, as \<open>take\<close> and \<open>drop\<close> do.
\<close>

type_synonym byte = "8 word"

definition NewLine :: byte where "NewLine = 10"
definition CarriageReturn :: byte where "CarriageReturn = 13"
definition Space :: byte where "Space = 32"
definition Colon :: byte where "Colon = 58"

definition subarray :: "byte list \<Rightarrow> nat \<Rightarrow> nat \<Rightarrow> byte list" where
  "subarray a begin end = take (end - begin) (drop begin a)"

definition subarray_from :: "byte list \<Rightarrow> nat \<Rightarrow> byte list" where
  "subarray_from a begin = drop begin a"

definition concat_bytes :: "byte list \<Rightarrow> byte list \<Rightarrow> byte list" where
  "concat_bytes a b = a @ b"

section \<open>getLines\<close>

text \<open>
  The value yielded by \<open>getLines\<close> is the object \<open>{line, fieldLength}\<close>, here the pair
  \<open>(line, fieldLength)\<close>.
\<close>

type_synonym Line = "byte list \<times> int"

text \<open>
  The variables of \<open>getLines\<close> that live across chunks. \<open>buffer\<close> is \<open>undefined\<close>
  (\<open>None\<close>) or an array; \<open>position\<close> and \<open>fieldLength\<close> are declared without a value
  and are assigned before they are first read, so their initial values below are never
  observed.
\<close>

record LineState =
  buffer :: "byte list option"
  position :: nat
  fieldLength :: int
  discardTrailingNewline :: bool

definition initLineState :: LineState where
  "initLineState = \<lparr>buffer = None, position = 0, fieldLength = -1,
     discardTrailingNewline = False\<rparr>"

text \<open>
  The inner \<open>for (; position < bufLength && lineEnd === -1; ++position)\<close> loop with its
  \<open>switch\<close>. It returns \<open>lineEnd\<close> (\<open>None\<close> for the value \<open>-1\<close>), and the updated
  \<open>position\<close>, \<open>fieldLength\<close> and \<open>discardTrailingNewline\<close>. The case for
  \<open>CarriageReturn\<close> falls through to the one for \<open>NewLine\<close>.
\<close>

function find_lineEnd ::
  "byte list \<Rightarrow> nat \<Rightarrow> nat \<Rightarrow> int \<Rightarrow> bool \<Rightarrow> nat option \<times> nat \<times> int \<times> bool" where
  "find_lineEnd buf lineStart pos fl d =
     (if pos < length buf then
        (if buf ! pos = Colon then
           find_lineEnd buf lineStart (pos + 1)
             (if fl = -1 then int pos - int lineStart else fl) d
         else if buf ! pos = CarriageReturn then (Some pos, pos + 1, fl, True)
         else if buf ! pos = NewLine then (Some pos, pos + 1, fl, d)
         else find_lineEnd buf lineStart (pos + 1) fl d)
      else (None, pos, fl, d))"
  by pat_completeness auto
termination
  by (relation "measure (\<lambda>(buf, lineStart, pos, fl, d). length buf - pos)") auto

declare find_lineEnd.simps [simp del]

lemma ControlChars_distinct [simp]:
  "NewLine \<noteq> CarriageReturn" "CarriageReturn \<noteq> NewLine"
  "NewLine \<noteq> Colon" "Colon \<noteq> NewLine"
  "CarriageReturn \<noteq> Colon" "Colon \<noteq> CarriageReturn"
  by (simp_all add: NewLine_def CarriageReturn_def Colon_def)

lemma find_lineEnd_advances:
  "find_lineEnd buf lineStart pos fl d = (Some e, pos', fl', d') \<Longrightarrow>
     pos \<le> e \<and> e < length buf \<and> pos' = e + 1"
proof (induction buf lineStart pos fl d rule: find_lineEnd.induct)
  case (1 buf lineStart pos fl d)
  from "1.prems" have inb: "pos < length buf"
    by (subst (asm) find_lineEnd.simps) (simp split: if_splits)
  show ?case
  proof (cases "buf ! pos = Colon")
    case True
    with inb "1.prems"
    have "find_lineEnd buf lineStart (pos + 1)
            (if fl = -1 then int pos - int lineStart else fl) d = (Some e, pos', fl', d')"
      by (subst (asm) find_lineEnd.simps) simp
    from "1.IH"(1) [OF inb True this] show ?thesis by simp
  next
    case False
    note nc = this
    show ?thesis
    proof (cases "buf ! pos = CarriageReturn \<or> buf ! pos = NewLine")
      case True
      with inb nc "1.prems" show ?thesis
        by (subst (asm) find_lineEnd.simps) auto
    next
      case False
      with inb nc "1.prems"
      have "find_lineEnd buf lineStart (pos + 1) fl d = (Some e, pos', fl', d')"
        by (subst (asm) find_lineEnd.simps) simp
      from "1.IH"(2) [OF inb nc _ _ this] False show ?thesis by simp
    qed
  qed
qed

text \<open>
  The \<open>while (position < bufLength)\<close> loop over one buffer. It returns the lines yielded
  and the values of \<open>lineStart\<close>, \<open>position\<close>, \<open>fieldLength\<close> and
  \<open>discardTrailingNewline\<close> when the loop is left.
\<close>

function parse_buffer ::
  "byte list \<Rightarrow> nat \<Rightarrow> nat \<Rightarrow> int \<Rightarrow> bool \<Rightarrow> Line list \<times> nat \<times> nat \<times> int \<times> bool" where
  "parse_buffer buf lineStart pos fl d =
     (if pos < length buf then
        (let skip = (d \<and> buf ! pos = NewLine);
             pos1 = (if skip then pos + 1 else pos);
             lineStart1 = (if skip then pos + 1 else lineStart);
             d1 = (if d then False else d)
         in (case find_lineEnd buf lineStart1 pos1 fl d1 of
               (None, pos2, fl2, d2) \<Rightarrow> ([], lineStart1, pos2, fl2, d2)
             | (Some lineEnd, pos2, fl2, d2) \<Rightarrow>
                 (case parse_buffer buf pos2 pos2 (-1) d2 of
                    (ls, r) \<Rightarrow> ((subarray buf lineStart1 lineEnd, fl2) # ls, r))))
      else ([], lineStart, pos, fl, d))"
  by pat_completeness auto
termination
  apply (relation "measure (\<lambda>(buf, lineStart, pos, fl, d). length buf - pos)")
   apply simp
  apply (auto dest!: find_lineEnd_advances [OF sym] split: if_splits)
  done

declare parse_buffer.simps [simp del]

text \<open>
  The body of \<open>for await (const arr of iter)\<close>: one chunk. An array is truthy even when
  it is empty, so \<open>if (buffer)\<close> tests only for \<open>undefined\<close>.
\<close>

definition getLines_chunk :: "LineState \<Rightarrow> byte list \<Rightarrow> Line list \<times> LineState" where
  "getLines_chunk s arr =
     (let (buf, pos, fl) =
            (case buffer s of
               Some b \<Rightarrow> (concat_bytes b arr, position s, fieldLength s)
             | None \<Rightarrow> (arr, 0, -1));
          bufLength = length buf
      in (case parse_buffer buf 0 pos fl (discardTrailingNewline s) of
            (ls, lineStart, pos', fl', d') \<Rightarrow>
              (ls,
               if lineStart = bufLength then
                 \<lparr>buffer = None, position = pos', fieldLength = fl',
                  discardTrailingNewline = d'\<rparr>
               else if lineStart \<noteq> 0 then
                 \<lparr>buffer = Some (subarray_from buf lineStart), position = pos' - lineStart,
                  fieldLength = fl', discardTrailingNewline = d'\<rparr>
               else
                 \<lparr>buffer = Some buf, position = pos', fieldLength = fl',
                  discardTrailingNewline = d'\<rparr>)))"

fun getLines_from :: "LineState \<Rightarrow> byte list list \<Rightarrow> Line list" where
  "getLines_from s [] = []"
| "getLines_from s (arr # iter) =
     (case getLines_chunk s arr of (ls, s') \<Rightarrow> ls @ getLines_from s' iter)"

definition getLines :: "byte list list \<Rightarrow> Line list" where
  "getLines iter = getLines_from initLineState iter"

section \<open>Strings, \<open>TextDecoder\<close> and \<open>parseInt\<close>\<close>

text \<open>
  A JavaScript string is a sequence of UTF-16 code units. \<open>js_string\<close> writes an ASCII
  string literal of the source, and \<open>ascii_bytes\<close> the bytes that \<open>TextEncoder\<close> gives
  for an ASCII literal (used by the examples and the tests).
\<close>

type_synonym code_unit = "16 word"
type_synonym js_str = "code_unit list"

definition js_string :: "string \<Rightarrow> js_str" where
  "js_string s = map (\<lambda>c. of_nat (of_char c)) s"

definition ascii_bytes :: "string \<Rightarrow> byte list" where
  "ascii_bytes s = map (\<lambda>c. of_nat (of_char c)) s"

text \<open>
  \<open>new TextDecoder().decode(bytes)\<close> is a function of the platform, not of this
  repository: the UTF-8 decoder of the Encoding Standard, in replacement mode (every
  malformed sequence becomes U+FFFD), called without the \<open>stream\<close> option, so every call
  starts afresh and drops one leading byte order mark. The arguments of \<open>utf8_decoder\<close>
  are the decoder's variables: code point, bytes seen, bytes needed, lower and upper
  boundary. A byte that is not the continuation expected is handled again, as a first
  byte.
\<close>

fun utf8_decoder :: "nat \<Rightarrow> nat \<Rightarrow> nat \<Rightarrow> nat \<Rightarrow> nat \<Rightarrow> byte list \<Rightarrow> nat list" where
  "utf8_decoder cp seen needed lower upper [] = (if needed \<noteq> 0 then [0xFFFD] else [])"
| "utf8_decoder cp seen needed lower upper (b # bs) =
     (let v = unat b in
      if needed = 0 then
        (if v \<le> 0x7F then v # utf8_decoder 0 0 0 0x80 0xBF bs
         else if 0xC2 \<le> v \<and> v \<le> 0xDF then utf8_decoder (v mod 0x20) 0 1 0x80 0xBF bs
         else if 0xE0 \<le> v \<and> v \<le> 0xEF then
           utf8_decoder (v mod 0x10) 0 2 (if v = 0xE0 then 0xA0 else 0x80)
             (if v = 0xED then 0x9F else 0xBF) bs
         else if 0xF0 \<le> v \<and> v \<le> 0xF4 then
           utf8_decoder (v mod 0x08) 0 3 (if v = 0xF0 then 0x90 else 0x80)
             (if v = 0xF4 then 0x8F else 0xBF) bs
         else 0xFFFD # utf8_decoder 0 0 0 0x80 0xBF bs)
      else if \<not> (lower \<le> v \<and> v \<le> upper) then
        0xFFFD # utf8_decoder 0 0 0 0x80 0xBF (b # bs)
      else
        (let cp' = cp * 0x40 + v mod 0x40 in
         if seen + 1 \<noteq> needed then utf8_decoder cp' (seen + 1) needed 0x80 0xBF bs
         else cp' # utf8_decoder 0 0 0 0x80 0xBF bs))"

definition utf16_units :: "nat \<Rightarrow> js_str" where
  "utf16_units cp =
     (if cp < 0x10000 then [of_nat cp]
      else [of_nat (0xD800 + (cp - 0x10000) div 0x400),
            of_nat (0xDC00 + (cp - 0x10000) mod 0x400)])"

definition decode :: "byte list \<Rightarrow> js_str" where
  "decode bytes =
     (let cps = utf8_decoder 0 0 0 0x80 0xBF bytes;
          cps' = (case cps of [] \<Rightarrow> [] | c # rest \<Rightarrow> if c = 0xFEFF then rest else cps)
      in concat (map utf16_units cps'))"

text \<open>
  \<open>parseInt(value, 10)\<close>, also of the platform (ECMAScript): leading white space and
  line terminators are trimmed, one sign is read, and the longest prefix of decimal
  digits is the number; with no digit there the result is \<open>NaN\<close>, here \<open>None\<close>, and
  \<open>isNaN\<close> is the test for \<open>None\<close>. The result is the mathematical integer that the
  digits denote; the rounding of a number beyond \<open>2 ^ 53\<close> to a double is left out.
\<close>

definition isWhiteSpace :: "code_unit \<Rightarrow> bool" where
  "isWhiteSpace c =
     (c = 0x09 \<or> c = 0x0A \<or> c = 0x0B \<or> c = 0x0C \<or> c = 0x0D \<or> c = 0x20 \<or> c = 0xA0 \<or>
      c = 0x1680 \<or> (0x2000 \<le> c \<and> c \<le> 0x200A) \<or> c = 0x2028 \<or> c = 0x2029 \<or>
      c = 0x202F \<or> c = 0x205F \<or> c = 0x3000 \<or> c = 0xFEFF)"

definition isDigit :: "code_unit \<Rightarrow> bool" where
  "isDigit c = (0x30 \<le> c \<and> c \<le> 0x39)"

definition digits_value :: "js_str \<Rightarrow> nat" where
  "digits_value Z = foldl (\<lambda>a c. 10 * a + (unat c - 0x30)) 0 Z"

definition parseInt :: "js_str \<Rightarrow> int option" where
  "parseInt inputString =
     (let S = dropWhile isWhiteSpace inputString;
          sign = (if S \<noteq> [] \<and> hd S = 0x2D then -1 else 1 :: int);
          S' = (if S \<noteq> [] \<and> (hd S = 0x2B \<or> hd S = 0x2D) then tl S else S);
          Z = takeWhile isDigit S'
      in if Z = [] then None else Some (sign * int (digits_value Z)))"

section \<open>getMessages\<close>

text \<open>
  An \<open>EventSourceMessage\<close> has four optional properties; \<open>None\<close> is a property that
  is absent, so that \<open>{}\<close> is \<open>emptyMessage\<close> and \<open>for (const _ in message)\<close> finds a key
  exactly when the message differs from it. The property \<open>id\<close> is named \<open>id_field\<close>.
\<close>

record EventSourceMessage =
  id_field :: "js_str option"
  event :: "js_str option"
  data :: "js_str option"
  retry :: "int option"

definition emptyMessage :: EventSourceMessage where
  "emptyMessage = \<lparr>id_field = None, event = None, data = None, retry = None\<rparr>"

text \<open>
  The two strings that the loop body decodes from a line with a separator:
  \<open>field = decoder.decode(line.subarray(0, fieldLength))\<close> and
  \<open>value = decoder.decode(line.subarray(valueOffset))\<close>. \<open>line[fieldLength + 1]\<close> is
  \<open>undefined\<close> beyond the end of the line, which is not a space. The destructured
  \<open>fieldLength\<close> is written \<open>fieldLen\<close> here.
\<close>

definition field_name :: "byte list \<Rightarrow> int \<Rightarrow> js_str" where
  "field_name line fieldLen = decode (subarray line 0 (nat fieldLen))"

definition field_value :: "byte list \<Rightarrow> int \<Rightarrow> js_str" where
  "field_value line fieldLen =
     (let valueOffset = nat fieldLen +
            (if nat fieldLen + 1 < length line \<and> line ! (nat fieldLen + 1) = Space
             then 2 else 1)
      in decode (subarray_from line valueOffset))"

text \<open>
  The body of \<open>for await (const { line, fieldLength } of iter)\<close>: one line. It returns
  the messages yielded and the new value of \<open>message\<close>. The \<open>switch\<close> has one block for
  the four known fields, entered with \<open>isNumber\<close> set for \<open>retry\<close>; every other field
  leaves the message as it is. \<open>message[field] = value\<close> assigns the property named by
  \<open>field\<close>.
\<close>

definition getMessages_line ::
  "EventSourceMessage \<Rightarrow> Line \<Rightarrow> EventSourceMessage list \<times> EventSourceMessage" where
  "getMessages_line message l =
     (case l of (line, fieldLen) \<Rightarrow>
        if length line = 0 then
          (if message \<noteq> emptyMessage then ([message], emptyMessage) else ([], message))
        else if fieldLen > 0 then
          (let field = field_name line fieldLen in
           if field = js_string ''retry'' \<or> field = js_string ''data'' \<or>
              field = js_string ''event'' \<or> field = js_string ''id'' then
             (let isNumber = (field = js_string ''retry'');
                  val = field_value line fieldLen
              in if isNumber then
                   (case parseInt val of
                      None \<Rightarrow> ([], message)
                    | Some n \<Rightarrow> ([], message\<lparr>retry := Some n\<rparr>))
                 else if field = js_string ''data'' then ([], message\<lparr>data := Some val\<rparr>)
                 else if field = js_string ''event'' then ([], message\<lparr>event := Some val\<rparr>)
                 else ([], message\<lparr>id_field := Some val\<rparr>))
           else ([], message))
        else ([], message))"

text \<open>
  The loop over all lines: the messages yielded, and the value of \<open>message\<close> when the
  lines are exhausted, which the generator drops.
\<close>

fun getMessages_run ::
  "EventSourceMessage \<Rightarrow> Line list \<Rightarrow> EventSourceMessage list \<times> EventSourceMessage" where
  "getMessages_run message [] = ([], message)"
| "getMessages_run message (l # iter) =
     (case getMessages_line message l of
        (ms, message') \<Rightarrow>
          (case getMessages_run message' iter of (ms', r) \<Rightarrow> (ms @ ms', r)))"

definition getMessages :: "Line list \<Rightarrow> EventSourceMessage list" where
  "getMessages iter = fst (getMessages_run emptyMessage iter)"

section \<open>Line splitting, one byte at a time\<close>

text \<open>
  The reference against which \<open>getLines\<close> is compared, written from the description of
  the wire format: lines end at \<open>\r\<close>, \<open>\n\<close> or \<open>\r\n\<close>, and the offset of a line
  is the index of its first colon, or \<open>-1\<close>. \<open>split_lines acc d bytes\<close> reads one byte
  at a time; \<open>acc\<close> holds the bytes of the line not yet ended and \<open>d\<close> says that the last
  byte was a \<open>\r\<close>. It returns the lines, and the final \<open>acc\<close> and \<open>d\<close>.
\<close>

definition colon_offset :: "byte list \<Rightarrow> int" where
  "colon_offset l =
     (if Colon \<in> set l then int (length (takeWhile (\<lambda>b. b \<noteq> Colon) l)) else -1)"

fun split_lines :: "byte list \<Rightarrow> bool \<Rightarrow> byte list \<Rightarrow> Line list \<times> byte list \<times> bool" where
  "split_lines acc d [] = ([], acc, d)"
| "split_lines acc d (b # bs) =
     (if d \<and> b = NewLine then split_lines acc False bs
      else if b = CarriageReturn then
        (case split_lines [] True bs of (ls, r) \<Rightarrow> ((acc, colon_offset acc) # ls, r))
      else if b = NewLine then
        (case split_lines [] False bs of (ls, r) \<Rightarrow> ((acc, colon_offset acc) # ls, r))
      else split_lines (acc @ [b]) False bs)"

text \<open>
  What the variables of \<open>getLines\<close> stand for between two chunks: the bytes of the
  unfinished line, and the invariant that ties \<open>position\<close> and \<open>fieldLength\<close> to them.
\<close>

definition pending :: "LineState \<Rightarrow> byte list" where
  "pending s = (case buffer s of None \<Rightarrow> [] | Some b \<Rightarrow> b)"

definition state_ok :: "LineState \<Rightarrow> bool" where
  "state_ok s =
     (case buffer s of
        None \<Rightarrow> True
      | Some b \<Rightarrow> b \<noteq> [] \<and> position s = length b \<and> fieldLength s = colon_offset b \<and>
          \<not> discardTrailingNewline s)"

text \<open>
  A line that assigns a property of the message: it is not empty, it has a separator
  after its first byte, and its field is \<open>data\<close>, \<open>event\<close> or \<open>id\<close>, or \<open>retry\<close> with
  a value that \<open>parseInt\<close> accepts.
\<close>

definition sets_field :: "Line \<Rightarrow> bool" where
  "sets_field l =
     (case l of (line, fieldLen) \<Rightarrow>
        line \<noteq> [] \<and> 0 < fieldLen \<and>
        (field_name line fieldLen = js_string ''data'' \<or>
         field_name line fieldLen = js_string ''event'' \<or>
         field_name line fieldLen = js_string ''id'' \<or>
         field_name line fieldLen = js_string ''retry'' \<and>
           parseInt (field_value line fieldLen) \<noteq> None))"

section \<open>Evaluation\<close>

named_theorems evals \<open>equations that evaluate the parser on a concrete input\<close>

declare getLines_def [evals] getLines_chunk_def [evals] initLineState_def [evals]
  find_lineEnd.simps [evals] parse_buffer.simps [evals] ascii_bytes_def [evals]
  js_string_def [evals] NewLine_def [evals] CarriageReturn_def [evals] Colon_def [evals]
  Space_def [evals] concat_bytes_def [evals] subarray_def [evals] subarray_from_def [evals]
  decode_def [evals] utf16_units_def [evals] parseInt_def [evals] isWhiteSpace_def [evals]
  isDigit_def [evals] digits_value_def [evals] getMessages_def [evals]
  getMessages_line_def [evals] emptyMessage_def [evals] field_name_def [evals]
  field_value_def [evals] colon_offset_def [evals]

section \<open>\<open>getLines\<close> refines the byte-wise splitting\<close>

lemma colon_offset_Nil [simp]: "colon_offset [] = -1"
  by (simp add: colon_offset_def)

lemma colon_offset_snoc:
  "colon_offset (acc @ [b]) =
     (if colon_offset acc = -1 then (if b = Colon then int (length acc) else -1)
      else colon_offset acc)"
proof (induction acc)
  case Nil
  show ?case by (simp add: colon_offset_def)
next
  case (Cons a acc)
  then show ?case by (auto simp: colon_offset_def split: if_splits)
qed

lemma subarray_snoc:
  "lineStart \<le> pos \<Longrightarrow> pos < length buf \<Longrightarrow>
     subarray buf lineStart (pos + 1) = subarray buf lineStart pos @ [buf ! pos]"
  by (simp add: subarray_def Suc_diff_le take_Suc_conv_app_nth)

lemma subarray_length:
  "lineStart \<le> pos \<Longrightarrow> pos \<le> length buf \<Longrightarrow> length (subarray buf lineStart pos) = pos - lineStart"
  by (simp add: subarray_def)

lemma split_lines_True_not_NewLine:
  "b \<noteq> NewLine \<Longrightarrow> split_lines acc True (b # bs) = split_lines acc False (b # bs)"
  by simp

lemma find_lineEnd_split_lines:
  assumes "lineStart \<le> pos" "pos \<le> length buf"
    and "fl = colon_offset (subarray buf lineStart pos)" "\<not> d"
  shows "case find_lineEnd buf lineStart pos fl d of
           (None, pos2, fl2, d2) \<Rightarrow>
              split_lines (subarray buf lineStart pos) False (drop pos buf) =
                ([], drop lineStart buf, False) \<and>
              pos2 = length buf \<and> fl2 = colon_offset (drop lineStart buf) \<and> \<not> d2
         | (Some e, pos2, fl2, d2) \<Rightarrow>
              split_lines (subarray buf lineStart pos) False (drop pos buf) =
                (case split_lines [] d2 (drop pos2 buf) of
                   (ls, r) \<Rightarrow> ((subarray buf lineStart e, fl2) # ls, r)) \<and>
              pos2 \<le> length buf"
  using assms
proof (induction buf lineStart pos fl d rule: find_lineEnd.induct)
  case (1 buf lineStart pos fl d)
  show ?case
  proof (cases "pos < length buf")
    case False
    with "1.prems" have "pos = length buf" by simp
    with "1.prems" show ?thesis
      by (subst find_lineEnd.simps) (simp add: subarray_def)
  next
    case True
    note inb = this
    then have dr: "drop pos buf = buf ! pos # drop (pos + 1) buf"
      by (simp add: Cons_nth_drop_Suc)
    have sn: "subarray buf lineStart (pos + 1) = subarray buf lineStart pos @ [buf ! pos]"
      using subarray_snoc [of lineStart pos buf] "1.prems" inb by simp
    have len: "length (subarray buf lineStart pos) = pos - lineStart"
      using "1.prems" by (simp add: subarray_length)
    have le1: "lineStart \<le> pos + 1" and le2: "pos + 1 \<le> length buf"
      using "1.prems" inb by simp_all
    note nd = \<open>\<not> d\<close>
    show ?thesis
    proof (cases "buf ! pos = Colon")
      case True
      have fl': "(if fl = -1 then int pos - int lineStart else fl) =
                 colon_offset (subarray buf lineStart (pos + 1))"
        unfolding sn using "1.prems" True len by (simp add: colon_offset_snoc)
      note A = "1.IH"(1) [OF inb True le1 le2 fl' nd]
      have B: "find_lineEnd buf lineStart pos fl d =
           find_lineEnd buf lineStart (pos + 1)
                  (if fl = -1 then int pos - int lineStart else fl) d"
        using inb True by (subst find_lineEnd.simps) simp
      have C: "split_lines (subarray buf lineStart pos) False (drop pos buf) =
           split_lines (subarray buf lineStart (pos + 1)) False (drop (pos + 1) buf)"
        unfolding dr sn using True by simp
      show ?thesis unfolding B C by (rule A)
    next
      case False
      note nc = this
      show ?thesis
      proof (cases "buf ! pos = CarriageReturn")
        case True
        then have "find_lineEnd buf lineStart pos fl d = (Some pos, pos + 1, fl, True)"
          using inb nc by (subst find_lineEnd.simps) simp
        then show ?thesis using True inb "1.prems" by (simp add: dr)
      next
        case False
        note ncr = this
        show ?thesis
        proof (cases "buf ! pos = NewLine")
          case True
          then have "find_lineEnd buf lineStart pos fl d = (Some pos, pos + 1, fl, d)"
            using inb nc ncr by (subst find_lineEnd.simps) simp
          then show ?thesis using True inb "1.prems" by (simp add: dr)
        next
          case False
          have fl': "fl = colon_offset (subarray buf lineStart (pos + 1))"
            unfolding sn using "1.prems" nc len by (simp add: colon_offset_snoc)
          note A = "1.IH"(2) [OF inb nc ncr False le1 le2 fl' nd]
          have B: "find_lineEnd buf lineStart pos fl d =
             find_lineEnd buf lineStart (pos + 1) fl d"
            using inb nc ncr False by (subst find_lineEnd.simps) simp
          have C: "split_lines (subarray buf lineStart pos) False (drop pos buf) =
             split_lines (subarray buf lineStart (pos + 1)) False (drop (pos + 1) buf)"
            unfolding dr sn using nc ncr False by simp
          show ?thesis unfolding B C by (rule A)
        qed
      qed
    qed
  qed
qed

lemma subarray_empty [simp]: "subarray buf p p = []"
  by (simp add: subarray_def)

lemma subarray_to_end: "subarray buf lineStart (length buf) = drop lineStart buf"
  by (simp add: subarray_def)

lemma parse_buffer_split_lines:
  assumes "lineStart \<le> pos" "pos \<le> length buf"
    and "fl = colon_offset (subarray buf lineStart pos)" "d \<longrightarrow> lineStart = pos"
  shows "case parse_buffer buf lineStart pos fl d of
           (ls, lineStart', pos', fl', d') \<Rightarrow>
              split_lines (subarray buf lineStart pos) d (drop pos buf) =
                (ls, drop lineStart' buf, d') \<and>
              pos' = length buf \<and> lineStart' \<le> length buf \<and>
              fl' = colon_offset (drop lineStart' buf)"
  using assms
proof (induction buf lineStart pos fl d rule: parse_buffer.induct)
  case (1 buf lineStart pos fl d)
  show ?case
  proof (cases "pos < length buf")
    case False
    with "1.prems" have "pos = length buf" by simp
    with "1.prems" show ?thesis
      by (subst parse_buffer.simps) (simp add: subarray_to_end)
  next
    case True
    note inb = this
    define skip where "skip = (d \<and> buf ! pos = NewLine)"
    define pos1 where "pos1 = (if skip then pos + 1 else pos)"
    define lineStart1 where "lineStart1 = (if skip then pos + 1 else lineStart)"
    define d1 where "d1 = (if d then False else d)"
    have d1: "\<not> d1" by (simp add: d1_def)
    have dr: "drop pos buf = buf ! pos # drop (pos + 1) buf"
      using inb by (simp add: Cons_nth_drop_Suc)
    have pre: "split_lines (subarray buf lineStart pos) d (drop pos buf) =
               split_lines (subarray buf lineStart1 pos1) False (drop pos1 buf)"
    proof (cases skip)
      case True
      with "1.prems" show ?thesis
        unfolding dr by (simp add: skip_def pos1_def lineStart1_def)
    next
      case False
      then have eq: "pos1 = pos" "lineStart1 = lineStart"
        by (simp_all add: pos1_def lineStart1_def)
      from False have "\<not> d \<or> buf ! pos \<noteq> NewLine"
        by (simp add: skip_def)
      then show ?thesis
        unfolding eq dr by auto
    qed
    have fl1: "fl = colon_offset (subarray buf lineStart1 pos1)"
      using "1.prems" by (auto simp: skip_def pos1_def lineStart1_def)
    have les: "lineStart1 \<le> pos1" "pos1 \<le> length buf"
      using "1.prems" inb by (auto simp: skip_def pos1_def lineStart1_def)
    note F = find_lineEnd_split_lines [OF les fl1 d1]
    obtain le pos2 fl2 d2 where fr: "find_lineEnd buf lineStart1 pos1 fl d1 = (le, pos2, fl2, d2)"
      by (cases "find_lineEnd buf lineStart1 pos1 fl d1") auto
    show ?thesis
    proof (cases le)
      case None
      have "parse_buffer buf lineStart pos fl d = ([], lineStart1, pos2, fl2, d2)"
        using inb fr None
        by (subst parse_buffer.simps)
           (simp add: Let_def skip_def [symmetric] pos1_def [symmetric]
              lineStart1_def [symmetric] d1_def [symmetric])
      moreover from F fr None
      have "split_lines (subarray buf lineStart1 pos1) False (drop pos1 buf) =
              ([], drop lineStart1 buf, False)" "pos2 = length buf"
           "fl2 = colon_offset (drop lineStart1 buf)" "\<not> d2"
        by simp_all
      moreover have "lineStart1 \<le> length buf" using les by simp
      ultimately show ?thesis by (simp add: pre)
    next
      case (Some e)
      from F fr Some
      have sl: "split_lines (subarray buf lineStart1 pos1) False (drop pos1 buf) =
                (case split_lines [] d2 (drop pos2 buf) of
                   (ls, r) \<Rightarrow> ((subarray buf lineStart1 e, fl2) # ls, r))"
        and p2: "pos2 \<le> length buf"
        by simp_all
      have pb: "parse_buffer buf lineStart pos fl d =
             (case parse_buffer buf pos2 pos2 (-1) d2 of
                (ls, r) \<Rightarrow> ((subarray buf lineStart1 e, fl2) # ls, r))"
        using inb fr Some
        by (subst parse_buffer.simps)
           (simp add: Let_def skip_def [symmetric] pos1_def [symmetric]
              lineStart1_def [symmetric] d1_def [symmetric])
      have IH: "case parse_buffer buf pos2 pos2 (-1) d2 of
           (ls, lineStart', pos', fl', d') \<Rightarrow>
              split_lines (subarray buf pos2 pos2) d2 (drop pos2 buf) =
                (ls, drop lineStart' buf, d') \<and>
              pos' = length buf \<and> lineStart' \<le> length buf \<and>
              fl' = colon_offset (drop lineStart' buf)"
        by (rule "1.IH" [OF inb skip_def pos1_def lineStart1_def d1_def fr [symmetric] Some refl refl])
           (use p2 in simp_all)
      obtain ls lineStart' pos' fl' d' where
        r: "parse_buffer buf pos2 pos2 (-1) d2 = (ls, lineStart', pos', fl', d')"
        by (cases "parse_buffer buf pos2 pos2 (-1) d2") auto
      from IH r show ?thesis
        by (simp add: pre sl pb)
    qed
  qed
qed

lemma split_lines_append:
  "split_lines acc d (xs @ ys) =
     (case split_lines acc d xs of
        (ls, acc', d') \<Rightarrow>
          (case split_lines acc' d' ys of (ls', r) \<Rightarrow> (ls @ ls', r)))"
  by (induction xs arbitrary: acc d) (auto split: prod.splits)

lemma split_lines_discard:
  "split_lines acc d bs = (ls, acc', d') \<Longrightarrow> acc \<noteq> [] \<longrightarrow> \<not> d \<Longrightarrow> acc' \<noteq> [] \<longrightarrow> \<not> d'"
  by (induction bs arbitrary: acc d ls) (auto split: prod.splits if_splits)

lemma getLines_chunk_split_lines:
  assumes "state_ok s" and "getLines_chunk s arr = (ls, s')"
  shows "split_lines (pending s) (discardTrailingNewline s) arr =
           (ls, pending s', discardTrailingNewline s') \<and> state_ok s'"
proof -
  define buf where "buf = (case buffer s of Some b \<Rightarrow> concat_bytes b arr | None \<Rightarrow> arr)"
  define pos where "pos = (case buffer s of Some b \<Rightarrow> position s | None \<Rightarrow> 0)"
  define fl where "fl = (case buffer s of Some b \<Rightarrow> fieldLength s | None \<Rightarrow> -1)"
  define d where "d = discardTrailingNewline s"
  have buf: "buf = pending s @ arr"
    by (simp add: buf_def pending_def concat_bytes_def split: option.splits)
  have pos: "pos = length (pending s)"
    using assms(1) by (simp add: pos_def pending_def state_ok_def split: option.splits)
  have fl: "fl = colon_offset (subarray buf 0 pos)"
    using assms(1)
    by (simp add: fl_def buf pos pending_def state_ok_def subarray_def split: option.splits)
  have dd: "d \<longrightarrow> 0 = pos"
    using assms(1) by (simp add: d_def pos_def state_ok_def split: option.splits)
  have acc: "subarray buf 0 pos = pending s" "drop pos buf = arr"
    by (simp_all add: buf pos subarray_def)
  obtain lineStart pos' fl' d' ls0 where
    pb: "parse_buffer buf 0 pos fl d = (ls0, lineStart, pos', fl', d')"
    by (cases "parse_buffer buf 0 pos fl d") auto
  have ple: "pos \<le> length buf"
    by (simp add: buf pos)
  have X: "split_lines (subarray buf 0 pos) d (drop pos buf) = (ls0, drop lineStart buf, d') \<and>
      pos' = length buf \<and> lineStart \<le> length buf \<and>
      fl' = colon_offset (drop lineStart buf)"
    using parse_buffer_split_lines [OF _ ple fl dd] pb by simp
  then have sl: "split_lines (pending s) d arr = (ls0, drop lineStart buf, d')"
    and p': "pos' = length buf" and ls: "lineStart \<le> length buf"
    and fl': "fl' = colon_offset (drop lineStart buf)"
    unfolding acc by simp_all
  from split_lines_discard [OF sl] assms(1)
  have nd: "drop lineStart buf \<noteq> [] \<longrightarrow> \<not> d'"
    by (auto simp: d_def pending_def state_ok_def split: option.splits)
  have chunk: "getLines_chunk s arr =
     (ls0,
      if lineStart = length buf then
        \<lparr>buffer = None, position = pos', fieldLength = fl', discardTrailingNewline = d'\<rparr>
      else if lineStart \<noteq> 0 then
        \<lparr>buffer = Some (subarray_from buf lineStart), position = pos' - lineStart,
         fieldLength = fl', discardTrailingNewline = d'\<rparr>
      else
        \<lparr>buffer = Some buf, position = pos', fieldLength = fl',
         discardTrailingNewline = d'\<rparr>)"
  proof -
    have "getLines_chunk s arr =
      (case parse_buffer buf 0 pos fl d of
         (ls, lineStart, pos', fl', d') \<Rightarrow>
           (ls,
            if lineStart = length buf then
              \<lparr>buffer = None, position = pos', fieldLength = fl',
               discardTrailingNewline = d'\<rparr>
            else if lineStart \<noteq> 0 then
              \<lparr>buffer = Some (subarray_from buf lineStart), position = pos' - lineStart,
               fieldLength = fl', discardTrailingNewline = d'\<rparr>
            else
              \<lparr>buffer = Some buf, position = pos', fieldLength = fl',
               discardTrailingNewline = d'\<rparr>))"
      unfolding getLines_chunk_def buf_def pos_def fl_def d_def Let_def
      by (cases "buffer s") (simp_all cong: if_cong)
    then show ?thesis unfolding pb by (simp only: prod.case)
  qed
  show ?thesis
  proof (cases "lineStart = length buf")
    case True
    with chunk assms(2) sl show ?thesis
      by (auto simp: pending_def state_ok_def d_def)
  next
    case False
    with ls have lt: "lineStart < length buf" by simp
    with chunk assms(2) sl p' fl' nd show ?thesis
      by (auto simp: pending_def state_ok_def d_def subarray_from_def)
  qed
qed

lemma getLines_from_split_lines:
  "state_ok s \<Longrightarrow>
     getLines_from s iter =
       fst (split_lines (pending s) (discardTrailingNewline s) (concat iter))"
proof (induction iter arbitrary: s)
  case Nil
  show ?case by simp
next
  case (Cons arr iter)
  obtain ls s' where c: "getLines_chunk s arr = (ls, s')"
    by (cases "getLines_chunk s arr") auto
  from getLines_chunk_split_lines [OF Cons.prems c]
  have sl: "split_lines (pending s) (discardTrailingNewline s) arr =
           (ls, pending s', discardTrailingNewline s')" and ok: "state_ok s'"
    by simp_all
  from Cons.IH [OF ok] c sl show ?case
    by (simp add: split_lines_append split: prod.splits)
qed

lemma state_ok_init: "state_ok initLineState"
  by (simp add: state_ok_def initLineState_def)

lemma getLines_split_lines:
  "getLines iter = fst (split_lines [] False (concat iter))"
  using getLines_from_split_lines [OF state_ok_init, of iter]
  by (simp add: getLines_def pending_def initLineState_def)

subsection \<open>Properties of the byte-wise splitting\<close>

lemma split_lines_Cons_cases:
  assumes "split_lines acc d (b # bs) = (ls, r)"
  obtains (skip) "d" "b = NewLine" "split_lines acc False bs = (ls, r)"
  | (eol) ls0 where "\<not> (d \<and> b = NewLine)" "b = CarriageReturn \<or> b = NewLine"
      "split_lines [] (b = CarriageReturn) bs = (ls0, r)" "ls = (acc, colon_offset acc) # ls0"
  | (byte) "b \<noteq> CarriageReturn" "b \<noteq> NewLine" "split_lines (acc @ [b]) False bs = (ls, r)"
  using assms by (auto split: prod.splits if_splits)

lemma split_lines_offsets:
  "split_lines acc d bs = (ls, r) \<Longrightarrow> \<forall>l \<in> set ls. snd l = colon_offset (fst l)"
proof (induction bs arbitrary: acc d ls)
  case Nil
  then show ?case by simp
next
  case (Cons b bs)
  from Cons.prems show ?case
  proof (cases rule: split_lines_Cons_cases)
    case skip
    from Cons.IH [OF skip(3)] show ?thesis .
  next
    case (eol ls0)
    from Cons.IH [OF eol(3)] eol(4) show ?thesis by simp
  next
    case byte
    from Cons.IH [OF byte(3)] show ?thesis .
  qed
qed

lemma split_lines_no_eol:
  "split_lines acc d bs = (ls, acc', d') \<Longrightarrow>
   CarriageReturn \<notin> set acc \<Longrightarrow> NewLine \<notin> set acc \<Longrightarrow>
     (\<forall>l \<in> set ls. CarriageReturn \<notin> set (fst l) \<and> NewLine \<notin> set (fst l)) \<and>
     CarriageReturn \<notin> set acc' \<and> NewLine \<notin> set acc'"
proof (induction bs arbitrary: acc d ls)
  case Nil
  then show ?case by simp
next
  case (Cons b bs)
  from Cons.prems(1) show ?case
  proof (cases rule: split_lines_Cons_cases)
    case skip
    from Cons.IH [OF skip(3) Cons.prems(2,3)] show ?thesis .
  next
    case (eol ls0)
    from Cons.IH [OF eol(3)] Cons.prems(2,3) eol(4) show ?thesis by simp
  next
    case byte
    have "CarriageReturn \<notin> set (acc @ [b])" "NewLine \<notin> set (acc @ [b])"
      using byte(1,2) Cons.prems(2,3) by auto
    from Cons.IH [OF byte(3) this] show ?thesis .
  qed
qed

lemma colon_offset_first:
  "Colon \<notin> set a \<Longrightarrow> colon_offset (a @ Colon # b) = int (length a)"
  by (induction a) (auto simp: colon_offset_def)

lemma colon_offset_none: "Colon \<notin> set l \<Longrightarrow> colon_offset l = -1"
  by (simp add: colon_offset_def)

lemma colon_offset_zero: "colon_offset l = 0 \<longleftrightarrow> (l \<noteq> [] \<and> hd l = Colon)"
  by (cases l) (auto simp: colon_offset_def)

lemma colon_offset_Cons:
  "colon_offset (a # l) =
     (if a = Colon then 0 else if Colon \<in> set l then colon_offset l + 1 else -1)"
  by (simp add: colon_offset_def)

lemma colon_offset_index:
  "Colon \<in> set l \<Longrightarrow>
     0 \<le> colon_offset l \<and> nat (colon_offset l) < length l \<and>
     l ! nat (colon_offset l) = Colon \<and> Colon \<notin> set (take (nat (colon_offset l)) l)"
proof (induction l)
  case Nil
  then show ?case by simp
next
  case (Cons a l)
  show ?case
  proof (cases "a = Colon")
    case True
    then show ?thesis by (simp add: colon_offset_Cons)
  next
    case False
    with Cons.prems have c: "Colon \<in> set l" by simp
    from Cons.IH [OF c] have ge: "0 \<le> colon_offset l" by simp
    then have n: "nat (colon_offset l + 1) = Suc (nat (colon_offset l))" by simp
    from Cons.IH [OF c] False c show ?thesis
      by (simp add: colon_offset_Cons n)
  qed
qed

lemma getLines_run:
  "\<exists>acc d. split_lines [] False (concat iter) = (getLines iter, acc, d)"
  by (cases "split_lines [] False (concat iter)") (simp add: getLines_split_lines)

lemma split_lines_plain:
  "CarriageReturn \<notin> set l \<Longrightarrow> NewLine \<notin> set l \<Longrightarrow>
     split_lines acc False (l @ bs) = split_lines (acc @ l) False bs"
  by (induction l arbitrary: acc) auto

lemma split_lines_tail:
  "CarriageReturn \<notin> set t \<Longrightarrow> NewLine \<notin> set t \<Longrightarrow> fst (split_lines acc d t) = []"
  by (induction t arbitrary: acc d) auto

lemma split_lines_line_CR:
  assumes "CarriageReturn \<notin> set l" and "NewLine \<notin> set l"
  shows "split_lines [] d (l @ CarriageReturn # bs) =
           (case split_lines [] True bs of (ls, r) \<Rightarrow> ((l, colon_offset l) # ls, r))"
proof (cases l)
  case Nil
  then show ?thesis by simp
next
  case (Cons a l')
  with assms have a: "a \<noteq> CarriageReturn" "a \<noteq> NewLine"
    and l': "CarriageReturn \<notin> set l'" "NewLine \<notin> set l'"
    by auto
  have "split_lines [] d (l @ CarriageReturn # bs) =
        split_lines [a] False (l' @ CarriageReturn # bs)"
    using a by (simp add: Cons)
  also have "\<dots> = split_lines ([a] @ l') False (CarriageReturn # bs)"
    by (rule split_lines_plain [OF l'])
  finally show ?thesis by (simp add: Cons)
qed

lemma split_lines_line_NL:
  assumes "CarriageReturn \<notin> set l" and "NewLine \<notin> set l" and "l \<noteq> [] \<or> \<not> d"
  shows "split_lines [] d (l @ NewLine # bs) =
           (case split_lines [] False bs of (ls, r) \<Rightarrow> ((l, colon_offset l) # ls, r))"
proof (cases l)
  case Nil
  with assms(3) show ?thesis by simp
next
  case (Cons a l')
  with assms have a: "a \<noteq> CarriageReturn" "a \<noteq> NewLine"
    and l': "CarriageReturn \<notin> set l'" "NewLine \<notin> set l'"
    by auto
  have "split_lines [] d (l @ NewLine # bs) =
        split_lines [a] False (l' @ NewLine # bs)"
    using a by (simp add: Cons)
  also have "\<dots> = split_lines ([a] @ l') False (NewLine # bs)"
    by (rule split_lines_plain [OF l'])
  finally show ?thesis by (simp add: Cons)
qed

lemma split_lines_after_eol:
  assumes "split_lines acc d x = (ls, acc', d')" and "acc \<noteq> [] \<longrightarrow> \<not> d"
    and "x \<noteq> []" and "last x = CarriageReturn \<or> last x = NewLine"
  shows "acc' = [] \<and> (d' \<longleftrightarrow> last x = CarriageReturn)"
proof -
  from assms(3) obtain y b where x: "x = y @ [b]"
    by (cases x rule: rev_cases) auto
  with assms(4) have b: "b = CarriageReturn \<or> b = NewLine" by simp
  obtain ls1 acc1 d1 where y: "split_lines acc d y = (ls1, acc1, d1)"
    by (cases "split_lines acc d y") auto
  from split_lines_discard [OF y assms(2)] have inv: "acc1 \<noteq> [] \<longrightarrow> \<not> d1" .
  from assms(1) have "(case split_lines acc1 d1 [b] of (ls', r) \<Rightarrow> (ls1 @ ls', r)) =
      (ls, acc', d')"
    by (simp add: x split_lines_append y)
  with b inv show ?thesis
    by (auto simp: x split: if_splits)
qed

lemma split_lines_prefix_state:
  assumes "split_lines [] False x = (ls, acc', d')"
    and "x = [] \<or> last x = CarriageReturn \<or> last x = NewLine"
  shows "acc' = [] \<and> (d' \<longleftrightarrow> x \<noteq> [] \<and> last x = CarriageReturn)"
proof (cases "x = []")
  case True
  with assms(1) show ?thesis by simp
next
  case False
  with assms(2) have "last x = CarriageReturn \<or> last x = NewLine" by simp
  from split_lines_after_eol [OF assms(1) _ False this] False show ?thesis by simp
qed

section \<open>Properties of \<open>getMessages\<close> and \<open>parseInt\<close>\<close>

lemma field_names_distinct [simp]:
  "js_string ''retry'' \<noteq> js_string ''data''" "js_string ''retry'' \<noteq> js_string ''event''"
  "js_string ''retry'' \<noteq> js_string ''id''" "js_string ''data'' \<noteq> js_string ''event''"
  "js_string ''data'' \<noteq> js_string ''id''" "js_string ''event'' \<noteq> js_string ''id''"
  "js_string ''data'' \<noteq> js_string ''retry''" "js_string ''event'' \<noteq> js_string ''retry''"
  "js_string ''id'' \<noteq> js_string ''retry''" "js_string ''event'' \<noteq> js_string ''data''"
  "js_string ''id'' \<noteq> js_string ''data''" "js_string ''id'' \<noteq> js_string ''event''"
  by (simp_all add: js_string_def)

lemma getMessages_run_append:
  "getMessages_run m (xs @ ys) =
     (case getMessages_run m xs of
        (ms, m') \<Rightarrow> (case getMessages_run m' ys of (ms', r) \<Rightarrow> (ms @ ms', r)))"
  by (induction xs arbitrary: m) (auto split: prod.splits)

lemma getMessages_line_blank:
  "getMessages_line m ([], fl) =
     (if m \<noteq> emptyMessage then ([m], emptyMessage) else ([], emptyMessage))"
  by (simp add: getMessages_line_def)

lemma getMessages_line_nonblank:
  "fst l \<noteq> [] \<Longrightarrow> fst (getMessages_line m l) = []"
  by (cases l) (simp add: getMessages_line_def Let_def split: option.splits)

lemma getMessages_line_ignored:
  "fst l \<noteq> [] \<Longrightarrow> snd l \<le> 0 \<Longrightarrow> getMessages_line m l = ([], m)"
  by (cases l) (simp add: getMessages_line_def)

lemma getMessages_line_data:
  "line \<noteq> [] \<Longrightarrow> 0 < fl \<Longrightarrow> field_name line fl = js_string ''data'' \<Longrightarrow>
     getMessages_line m (line, fl) = ([], m\<lparr>data := Some (field_value line fl)\<rparr>)"
  by (simp add: getMessages_line_def)

lemma getMessages_line_event:
  "line \<noteq> [] \<Longrightarrow> 0 < fl \<Longrightarrow> field_name line fl = js_string ''event'' \<Longrightarrow>
     getMessages_line m (line, fl) = ([], m\<lparr>event := Some (field_value line fl)\<rparr>)"
  by (simp add: getMessages_line_def)

lemma getMessages_line_id:
  "line \<noteq> [] \<Longrightarrow> 0 < fl \<Longrightarrow> field_name line fl = js_string ''id'' \<Longrightarrow>
     getMessages_line m (line, fl) = ([], m\<lparr>id_field := Some (field_value line fl)\<rparr>)"
  by (simp add: getMessages_line_def)

lemma getMessages_line_retry:
  "line \<noteq> [] \<Longrightarrow> 0 < fl \<Longrightarrow> field_name line fl = js_string ''retry'' \<Longrightarrow>
     getMessages_line m (line, fl) =
       ([], case parseInt (field_value line fl) of None \<Rightarrow> m | Some n \<Rightarrow> m\<lparr>retry := Some n\<rparr>)"
  by (simp add: getMessages_line_def split: option.splits)

lemma getMessages_line_other:
  "line \<noteq> [] \<Longrightarrow> field_name line fl \<noteq> js_string ''retry'' \<Longrightarrow>
   field_name line fl \<noteq> js_string ''data'' \<Longrightarrow> field_name line fl \<noteq> js_string ''event'' \<Longrightarrow>
   field_name line fl \<noteq> js_string ''id'' \<Longrightarrow>
     getMessages_line m (line, fl) = ([], m)"
  by (simp add: getMessages_line_def)

lemma nonempty_message:
  "data m \<noteq> None \<or> event m \<noteq> None \<or> id_field m \<noteq> None \<or> retry m \<noteq> None \<Longrightarrow>
     m \<noteq> emptyMessage"
  by (auto simp: emptyMessage_def)

lemma getMessages_line_sets_field:
  assumes "fst l \<noteq> []"
  shows "snd (getMessages_line m l) \<noteq> emptyMessage \<longleftrightarrow> m \<noteq> emptyMessage \<or> sets_field l"
proof (cases l)
  case (Pair line fl)
  with assms have ne: "line \<noteq> []" by simp
  show ?thesis
  proof (cases "0 < fl")
    case False
    with ne Pair show ?thesis
      by (simp add: getMessages_line_ignored sets_field_def)
  next
    case True
    note pos = this
    consider (d) "field_name line fl = js_string ''data''"
      | (e) "field_name line fl = js_string ''event''"
      | (i) "field_name line fl = js_string ''id''"
      | (r) "field_name line fl = js_string ''retry''"
      | (o) "field_name line fl \<noteq> js_string ''retry''" "field_name line fl \<noteq> js_string ''data''"
            "field_name line fl \<noteq> js_string ''event''" "field_name line fl \<noteq> js_string ''id''"
      by blast
    then show ?thesis
    proof cases
      case d
      with ne pos Pair show ?thesis
        by (simp add: getMessages_line_data sets_field_def nonempty_message)
    next
      case e
      with ne pos Pair show ?thesis
        by (simp add: getMessages_line_event sets_field_def nonempty_message)
    next
      case i
      with ne pos Pair show ?thesis
        by (simp add: getMessages_line_id sets_field_def nonempty_message)
    next
      case r
      with ne pos Pair show ?thesis
        by (cases "parseInt (field_value line fl)")
           (simp_all add: getMessages_line_retry sets_field_def nonempty_message)
    next
      case o
      with ne pos Pair show ?thesis
        by (simp add: getMessages_line_other sets_field_def)
    qed
  qed
qed

lemma getMessages_run_group:
  "\<forall>l \<in> set g. fst l \<noteq> [] \<Longrightarrow>
     fst (getMessages_run m g) = [] \<and>
     (snd (getMessages_run m g) \<noteq> emptyMessage \<longleftrightarrow>
        m \<noteq> emptyMessage \<or> (\<exists>l \<in> set g. sets_field l))"
proof (induction g arbitrary: m)
  case Nil
  show ?case by simp
next
  case (Cons l g)
  obtain ms m' where s: "getMessages_line m l = (ms, m')"
    by (cases "getMessages_line m l") auto
  from Cons.prems have ne: "fst l \<noteq> []" and rest: "\<forall>l \<in> set g. fst l \<noteq> []"
    by simp_all
  from getMessages_line_nonblank [OF ne, of m] s have ms: "ms = []" by simp
  from getMessages_line_sets_field [OF ne, of m] s
  have m': "m' \<noteq> emptyMessage \<longleftrightarrow> m \<noteq> emptyMessage \<or> sets_field l" by simp
  from Cons.IH [OF rest, of m'] s ms m' show ?case
    by (auto split: prod.splits)
qed

lemma getMessages_run_ignored:
  "\<forall>l \<in> set ls. fst l = [] \<or> snd l \<le> 0 \<Longrightarrow>
     getMessages_run emptyMessage ls = ([], emptyMessage)"
proof (induction ls)
  case Nil
  show ?case by simp
next
  case (Cons l ls)
  then have "fst l = [] \<or> snd l \<le> 0" by simp
  then have "getMessages_line emptyMessage l = ([], emptyMessage)"
    by (cases l; cases "fst l = []")
       (auto simp: getMessages_line_blank getMessages_line_ignored)
  with Cons show ?case by simp
qed

lemma getMessages_run_blank_last:
  "snd (getMessages_run m (xs @ [([], fl)])) = emptyMessage"
  by (simp add: getMessages_run_append getMessages_line_blank split: prod.splits)

lemma isDigit_not_space: "isDigit c \<Longrightarrow> \<not> isWhiteSpace c"
  by (auto simp: isDigit_def isWhiteSpace_def word_le_nat_alt)

lemma isDigit_not_sign: "isDigit c \<Longrightarrow> c \<noteq> 0x2B \<and> c \<noteq> 0x2D"
  by (auto simp: isDigit_def)

lemma sign_not_space: "\<not> isWhiteSpace 0x2B" "\<not> isWhiteSpace 0x2D"
  by (simp_all add: isWhiteSpace_def)

lemma parseInt_accepts:
  "parseInt v \<noteq> None \<longleftrightarrow>
     (\<exists>ws sg ds rest. v = ws @ sg @ ds @ rest \<and> (\<forall>c \<in> set ws. isWhiteSpace c) \<and>
        (sg = [] \<or> sg = [0x2B] \<or> sg = [0x2D]) \<and> ds \<noteq> [] \<and> (\<forall>c \<in> set ds. isDigit c))"
proof
  assume p: "parseInt v \<noteq> None"
  define S where "S = dropWhile isWhiteSpace v"
  define sg where "sg = (if S \<noteq> [] \<and> (hd S = 0x2B \<or> hd S = 0x2D) then [hd S] else [])"
  define S' where "S' = (if S \<noteq> [] \<and> (hd S = 0x2B \<or> hd S = 0x2D) then tl S else S)"
  have 1: "v = takeWhile isWhiteSpace v @ S" by (simp add: S_def)
  have 2: "S = sg @ S'" by (simp add: sg_def S'_def)
  have 3: "S' = takeWhile isDigit S' @ dropWhile isDigit S'" by simp
  from p have 4: "takeWhile isDigit S' \<noteq> []"
    by (simp add: parseInt_def Let_def S_def [symmetric] S'_def [symmetric] split: if_splits)
  have 5: "\<forall>c \<in> set (takeWhile isWhiteSpace v). isWhiteSpace c"
    by (auto dest: set_takeWhileD)
  have 6: "\<forall>c \<in> set (takeWhile isDigit S'). isDigit c"
    by (auto dest: set_takeWhileD)
  have 7: "sg = [] \<or> sg = [0x2B] \<or> sg = [0x2D]"
    by (auto simp: sg_def)
  have "v = takeWhile isWhiteSpace v @ sg @ takeWhile isDigit S' @ dropWhile isDigit S'"
    using 1 2 3 by metis
  with 4 5 6 7 show "\<exists>ws sg ds rest. v = ws @ sg @ ds @ rest \<and> (\<forall>c \<in> set ws. isWhiteSpace c) \<and>
        (sg = [] \<or> sg = [0x2B] \<or> sg = [0x2D]) \<and> ds \<noteq> [] \<and> (\<forall>c \<in> set ds. isDigit c)"
    by blast
next
  assume "\<exists>ws sg ds rest. v = ws @ sg @ ds @ rest \<and> (\<forall>c \<in> set ws. isWhiteSpace c) \<and>
        (sg = [] \<or> sg = [0x2B] \<or> sg = [0x2D]) \<and> ds \<noteq> [] \<and> (\<forall>c \<in> set ds. isDigit c)"
  then obtain ws sg ds rest where v: "v = ws @ sg @ ds @ rest"
    and ws: "\<forall>c \<in> set ws. isWhiteSpace c" and sg: "sg = [] \<or> sg = [0x2B] \<or> sg = [0x2D]"
    and ds: "ds \<noteq> []" "\<forall>c \<in> set ds. isDigit c"
    by blast
  from ds obtain c cs where c: "ds = c # cs" "isDigit c"
    by (cases ds) auto
  have hd: "\<not> isWhiteSpace (hd (sg @ ds @ rest))"
    using sg c by (auto simp: sign_not_space isDigit_not_space)
  have ne: "sg @ ds @ rest \<noteq> []" using ds by simp
  have S: "dropWhile isWhiteSpace v = sg @ ds @ rest"
  proof -
    have "dropWhile isWhiteSpace v = dropWhile isWhiteSpace (sg @ ds @ rest)"
      unfolding v using ws by (simp add: dropWhile_append2)
    also have "\<dots> = sg @ ds @ rest"
      using hd ne by (cases "sg @ ds @ rest") auto
    finally show ?thesis .
  qed
  have S': "(if sg @ ds @ rest \<noteq> [] \<and> (hd (sg @ ds @ rest) = 0x2B \<or> hd (sg @ ds @ rest) = 0x2D)
             then tl (sg @ ds @ rest) else sg @ ds @ rest) = ds @ rest"
    using sg c isDigit_not_sign [OF c(2)] by auto
  have Z: "takeWhile isDigit (ds @ rest) \<noteq> []"
    using c by simp
  show "parseInt v \<noteq> None"
    using Z by (simp add: parseInt_def Let_def S S' del: append_eq_append_conv append_is_Nil_conv)
qed

section \<open>Claims about \<open>getLines\<close>\<close>

text \<open>
  C1. Chunking invariance: however a byte sequence is cut into chunks (one byte per
  chunk, empty chunks, any cut), \<open>getLines\<close> yields the same sequence of
  \<open>(line, fieldLength)\<close> pairs as it does for the whole sequence given as one chunk.
\<close>

theorem getLines_chunking_invariant:
  "getLines iter = getLines [concat iter]"
  by (simp add: getLines_split_lines)

text \<open>
  C6. A chunk that ends in \<open>\r\<close> followed by a chunk that starts with \<open>\n\<close>, after any
  chunks \<open>pre\<close>: the \<open>\n\<close> is consumed and gives no line, so the lines are those up to
  the \<open>\r\<close> followed by those of the rest. When the input up to the \<open>\r\<close> is \<open>x\<close>
  (empty, or ending in a line end) followed by a line \<open>l\<close>, in whatever chunks, exactly
  the one line \<open>l\<close> is added, ending at the \<open>\r\<close>. In one chunk \<open>\r\n\<close>, \<open>\n\<close> and
  \<open>\r\<close> end the line alike, except where the byte belongs to a neighbour: a \<open>\n\<close>
  right after a \<open>\r\<close> that ends \<open>x\<close>, and a \<open>\r\<close> right before a \<open>\n\<close>.
\<close>

theorem getLines_crlf:
  "getLines (pre @ (c @ [CarriageReturn]) # (NewLine # rest) # iter) =
     getLines (pre @ [c @ [CarriageReturn]]) @ getLines (rest # iter) \<and>
   (CarriageReturn \<notin> set l \<and> NewLine \<notin> set l \<and> concat pre @ c = x @ l \<and>
    (x = [] \<or> last x = CarriageReturn \<or> last x = NewLine) \<longrightarrow>
      getLines (pre @ [c @ [CarriageReturn]]) = getLines [x] @ [(l, colon_offset l)] \<and>
      getLines (pre @ (c @ [CarriageReturn]) # (NewLine # rest) # iter) =
        getLines [x] @ (l, colon_offset l) # getLines (rest # iter) \<and>
      getLines (pre @ (c @ [CarriageReturn, NewLine] @ rest) # iter) =
        getLines [x] @ (l, colon_offset l) # getLines (rest # iter) \<and>
      (l \<noteq> [] \<or> x = [] \<or> last x = NewLine \<longrightarrow>
       getLines (pre @ (c @ [NewLine] @ rest) # iter) =
         getLines [x] @ (l, colon_offset l) # getLines (rest # iter)) \<and>
      (concat (rest # iter) = [] \<or> hd (concat (rest # iter)) \<noteq> NewLine \<longrightarrow>
       getLines (pre @ (c @ [CarriageReturn] @ rest) # iter) =
         getLines [x] @ (l, colon_offset l) # getLines (rest # iter)))"
proof (intro conjI impI)
  define bs where "bs = rest @ concat iter"
  define p where "p = concat pre @ c"
  have g: "getLines (rest # iter) = fst (split_lines [] False bs)"
    by (simp add: getLines_split_lines bs_def)
  have cb: "concat (rest # iter) = bs"
    by (simp add: bs_def)
  have skip: "split_lines [] True (NewLine # bs) = split_lines [] False bs"
    by simp
  have e1: "getLines (pre @ (c @ [CarriageReturn]) # (NewLine # rest) # iter) =
              fst (split_lines [] False ((p @ [CarriageReturn]) @ NewLine # bs))"
    by (simp add: getLines_split_lines bs_def p_def)
  have e2: "getLines (pre @ [c @ [CarriageReturn]]) =
              fst (split_lines [] False (p @ [CarriageReturn]))"
    by (simp add: getLines_split_lines p_def)
  have e3: "getLines (pre @ (c @ [CarriageReturn, NewLine] @ rest) # iter) =
              fst (split_lines [] False ((p @ [CarriageReturn]) @ NewLine # bs))"
    by (simp add: getLines_split_lines bs_def p_def)
  have e4: "getLines (pre @ (c @ [NewLine] @ rest) # iter) =
              fst (split_lines [] False (p @ NewLine # bs))"
    by (simp add: getLines_split_lines bs_def p_def)
  have e5: "getLines (pre @ (c @ [CarriageReturn] @ rest) # iter) =
              fst (split_lines [] False (p @ CarriageReturn # bs))"
    by (simp add: getLines_split_lines bs_def p_def)
  obtain lp ap dp where rp: "split_lines [] False (p @ [CarriageReturn]) = (lp, ap, dp)"
    by (cases "split_lines [] False (p @ [CarriageReturn])") auto
  from split_lines_after_eol [OF rp] have sp: "ap = []" "dp"
    by simp_all
  have crlf: "fst (split_lines [] False ((p @ [CarriageReturn]) @ NewLine # bs)) =
        lp @ fst (split_lines [] False bs)"
    unfolding split_lines_append [of "[]" False "p @ [CarriageReturn]"] rp
    using sp by (simp add: skip split: prod.splits)
  show u: "getLines (pre @ (c @ [CarriageReturn]) # (NewLine # rest) # iter) =
     getLines (pre @ [c @ [CarriageReturn]]) @ getLines (rest # iter)"
    unfolding e1 e2 g crlf rp by simp
  assume a: "CarriageReturn \<notin> set l \<and> NewLine \<notin> set l \<and> concat pre @ c = x @ l \<and>
    (x = [] \<or> last x = CarriageReturn \<or> last x = NewLine)"
  then have l: "CarriageReturn \<notin> set l" "NewLine \<notin> set l" and px: "p = x @ l"
    and xe: "x = [] \<or> last x = CarriageReturn \<or> last x = NewLine"
    by (simp_all add: p_def)
  obtain lx ax dx where rx: "split_lines [] False x = (lx, ax, dx)"
    by (cases "split_lines [] False x") auto
  from split_lines_prefix_state [OF rx xe]
  have sx: "ax = []" "dx \<longleftrightarrow> x \<noteq> [] \<and> last x = CarriageReturn"
    by simp_all
  have gx: "getLines [x] = lx"
    using rx by (simp add: getLines_split_lines)
  have lpx: "lp = lx @ [(l, colon_offset l)]"
  proof -
    have "split_lines [] False (x @ l @ [CarriageReturn]) =
          (lx @ [(l, colon_offset l)], [], True)"
      unfolding split_lines_append [of "[]" False x] rx
      using sx(1) by (simp add: split_lines_line_CR [OF l])
    with rp px show ?thesis by simp
  qed
  show "getLines (pre @ [c @ [CarriageReturn]]) = getLines [x] @ [(l, colon_offset l)]"
    unfolding e2 rp gx lpx by simp
  show "getLines (pre @ (c @ [CarriageReturn]) # (NewLine # rest) # iter) =
        getLines [x] @ (l, colon_offset l) # getLines (rest # iter)"
    unfolding e1 crlf g gx lpx by simp
  show "getLines (pre @ (c @ [CarriageReturn, NewLine] @ rest) # iter) =
        getLines [x] @ (l, colon_offset l) # getLines (rest # iter)"
    unfolding e3 crlf g gx lpx by simp
  {
    assume n: "l \<noteq> [] \<or> x = [] \<or> last x = NewLine"
    have "l \<noteq> [] \<or> \<not> dx"
      using n sx(2) by auto
    from split_lines_line_NL [OF l this, of bs]
    have "fst (split_lines [] False (x @ l @ NewLine # bs)) =
          lx @ (l, colon_offset l) # fst (split_lines [] False bs)"
      unfolding split_lines_append [of "[]" False x] rx
      using sx(1) by (simp split: prod.splits)
    then show "getLines (pre @ (c @ [NewLine] @ rest) # iter) =
         getLines [x] @ (l, colon_offset l) # getLines (rest # iter)"
      unfolding e4 g gx px by simp
  }
  {
    assume n: "concat (rest # iter) = [] \<or> hd (concat (rest # iter)) \<noteq> NewLine"
    then have "bs = [] \<or> hd bs \<noteq> NewLine"
      unfolding cb .
    then have t: "fst (split_lines [] True bs) = fst (split_lines [] False bs)"
      by (cases bs) auto
    have "fst (split_lines [] False (x @ l @ CarriageReturn # bs)) =
          lx @ (l, colon_offset l) # fst (split_lines [] True bs)"
      unfolding split_lines_append [of "[]" False x] rx
      using sx(1) by (simp add: split_lines_line_CR [OF l] split: prod.splits)
    then show "getLines (pre @ (c @ [CarriageReturn] @ rest) # iter) =
         getLines [x] @ (l, colon_offset l) # getLines (rest # iter)"
      unfolding e5 g gx px t by simp
  }
qed

theorem getLines_crlf_witness:
  "CarriageReturn \<notin> set (ascii_bytes ''abc'') \<and> NewLine \<notin> set (ascii_bytes ''abc'') \<and>
   concat [ascii_bytes ''ab''] @ ascii_bytes ''c'' = [] @ ascii_bytes ''abc'' \<and>
   getLines [ascii_bytes ''ab'', ascii_bytes ''c'' @ [CarriageReturn],
             NewLine # ascii_bytes ''d'' @ [NewLine]] =
     [(ascii_bytes ''abc'', -1), (ascii_bytes ''d'', -1)] \<and>
   getLines [ascii_bytes ''ab'', ascii_bytes ''c'' @ [CarriageReturn, NewLine] @
             ascii_bytes ''d'' @ [NewLine]] =
     [(ascii_bytes ''abc'', -1), (ascii_bytes ''d'', -1)] \<and>
   getLines [ascii_bytes ''ab'', ascii_bytes ''c'' @ [NewLine] @ ascii_bytes ''d'' @ [NewLine]] =
     [(ascii_bytes ''abc'', -1), (ascii_bytes ''d'', -1)] \<and>
   getLines [ascii_bytes ''ab'', ascii_bytes ''c'' @ [CarriageReturn] @
             ascii_bytes ''d'' @ [NewLine]] =
     [(ascii_bytes ''abc'', -1), (ascii_bytes ''d'', -1)] \<and>
   last (ascii_bytes ''id: 1'' @ [CarriageReturn, NewLine]) = NewLine \<and>
   getLines [ascii_bytes ''id: 1'' @ [CarriageReturn, NewLine] @ ascii_bytes ''da'',
             ascii_bytes ''ta: x'' @ [CarriageReturn], [NewLine]] =
     [(ascii_bytes ''id: 1'', 2), (ascii_bytes ''data: x'', 4)]"
proof -
  have h: "CarriageReturn \<notin> set (ascii_bytes ''abc'') \<and> NewLine \<notin> set (ascii_bytes ''abc'') \<and>
      concat [ascii_bytes ''ab''] @ ascii_bytes ''c'' = [] @ ascii_bytes ''abc'' \<and>
      (([] :: byte list) = [] \<or> last [] = CarriageReturn \<or> last [] = NewLine)"
    by (simp add: evals)
  have n: "hd (concat [ascii_bytes ''d'' @ [NewLine]]) \<noteq> NewLine"
    by (simp add: evals)
  have e: "getLines [[]] = []"
    by (simp add: evals)
  have r: "getLines [ascii_bytes ''d'' @ [NewLine]] = [(ascii_bytes ''d'', -1)]"
    by (simp add: evals)
  have c: "colon_offset (ascii_bytes ''abc'') = -1"
    by (simp add: evals)
  have h2: "CarriageReturn \<notin> set (ascii_bytes ''data: x'') \<and>
      NewLine \<notin> set (ascii_bytes ''data: x'') \<and>
      concat [ascii_bytes ''id: 1'' @ [CarriageReturn, NewLine] @ ascii_bytes ''da''] @
        ascii_bytes ''ta: x'' =
        (ascii_bytes ''id: 1'' @ [CarriageReturn, NewLine]) @ ascii_bytes ''data: x'' \<and>
      (ascii_bytes ''id: 1'' @ [CarriageReturn, NewLine] = [] \<or>
       last (ascii_bytes ''id: 1'' @ [CarriageReturn, NewLine]) = CarriageReturn \<or>
       last (ascii_bytes ''id: 1'' @ [CarriageReturn, NewLine]) = NewLine)"
    by (simp add: evals)
  have r2: "getLines [ascii_bytes ''id: 1'' @ [CarriageReturn, NewLine]] =
      [(ascii_bytes ''id: 1'', 2)]"
    by (simp add: evals)
  have c2: "colon_offset (ascii_bytes ''data: x'') = 4"
    by (simp add: evals)
  have l2: "last (ascii_bytes ''id: 1'' @ [CarriageReturn, NewLine]) = NewLine"
    by simp
  note A = getLines_crlf [of "[ascii_bytes ''ab'']" "ascii_bytes ''c''"
      "ascii_bytes ''d'' @ [NewLine]" "[]" "ascii_bytes ''abc''" "[]", THEN conjunct2, rule_format, OF h]
  note B = getLines_crlf [of "[ascii_bytes ''id: 1'' @ [CarriageReturn, NewLine] @ ascii_bytes ''da'']"
      "ascii_bytes ''ta: x''" "[]" "[]" "ascii_bytes ''data: x''"
      "ascii_bytes ''id: 1'' @ [CarriageReturn, NewLine]", THEN conjunct2, rule_format, OF h2]
  from A n have A': "getLines [ascii_bytes ''ab'', ascii_bytes ''c'' @ [CarriageReturn],
             NewLine # ascii_bytes ''d'' @ [NewLine]] =
     [(ascii_bytes ''abc'', -1), (ascii_bytes ''d'', -1)] \<and>
   getLines [ascii_bytes ''ab'', ascii_bytes ''c'' @ [CarriageReturn, NewLine] @
             ascii_bytes ''d'' @ [NewLine]] =
     [(ascii_bytes ''abc'', -1), (ascii_bytes ''d'', -1)] \<and>
   getLines [ascii_bytes ''ab'', ascii_bytes ''c'' @ [NewLine] @ ascii_bytes ''d'' @ [NewLine]] =
     [(ascii_bytes ''abc'', -1), (ascii_bytes ''d'', -1)] \<and>
   getLines [ascii_bytes ''ab'', ascii_bytes ''c'' @ [CarriageReturn] @
             ascii_bytes ''d'' @ [NewLine]] =
     [(ascii_bytes ''abc'', -1), (ascii_bytes ''d'', -1)]"
    by (simp add: e r c)
  from B have B': "getLines [ascii_bytes ''id: 1'' @ [CarriageReturn, NewLine] @ ascii_bytes ''da'',
             ascii_bytes ''ta: x'' @ [CarriageReturn], [NewLine]] =
     [(ascii_bytes ''id: 1'', 2), (ascii_bytes ''data: x'', 4)]"
    by (simp add: e r2 c2)
  from h A' B' l2 show ?thesis by simp
qed

text \<open>
  C7. The \<open>fieldLength\<close> of every line yielded is the offset of the first colon of the
  line: later colons do not change it, offset 0 is a line that starts with a colon (a
  comment), and a line without a colon has \<open>-1\<close>. The three lines of the specification
  have the offsets 2, 0 and \<open>-1\<close>.
\<close>

theorem getLines_field_offset:
  "(\<forall>l \<in> set (getLines iter). snd l = colon_offset (fst l)) \<and>
   (\<forall>l \<in> set (getLines iter). snd l = 0 \<longleftrightarrow> fst l \<noteq> [] \<and> hd (fst l) = Colon) \<and>
   (\<forall>a b. Colon \<notin> set a \<longrightarrow> colon_offset (a @ Colon # b) = int (length a)) \<and>
   (\<forall>l. Colon \<notin> set l \<longrightarrow> colon_offset l = -1) \<and>
   getLines [ascii_bytes ''id: abc'' @ [NewLine]] = [(ascii_bytes ''id: abc'', 2)] \<and>
   getLines [ascii_bytes '': comment'' @ [NewLine]] = [(ascii_bytes '': comment'', 0)] \<and>
   getLines [ascii_bytes ''no-colon-here'' @ [NewLine]] = [(ascii_bytes ''no-colon-here'', -1)]"
proof -
  obtain acc d where r: "split_lines [] False (concat iter) = (getLines iter, acc, d)"
    using getLines_run by blast
  have 1: "\<forall>l \<in> set (getLines iter). snd l = colon_offset (fst l)"
    by (rule split_lines_offsets [OF r])
  then have 2: "\<forall>l \<in> set (getLines iter). snd l = 0 \<longleftrightarrow> fst l \<noteq> [] \<and> hd (fst l) = Colon"
    by (simp add: colon_offset_zero)
  have 3: "getLines [ascii_bytes ''id: abc'' @ [NewLine]] = [(ascii_bytes ''id: abc'', 2)]"
    by (simp add: evals)
  have 4: "getLines [ascii_bytes '': comment'' @ [NewLine]] = [(ascii_bytes '': comment'', 0)]"
    by (simp add: evals)
  have 5: "getLines [ascii_bytes ''no-colon-here'' @ [NewLine]] =
             [(ascii_bytes ''no-colon-here'', -1)]"
    by (simp add: evals)
  from 1 2 3 4 5 show ?thesis
    by (simp add: colon_offset_first colon_offset_none)
qed

theorem getLines_field_offset_witness:
  "getLines [ascii_bytes ''a:b:c'' @ [NewLine], ascii_bytes '':x'' @ [CarriageReturn]] =
     [(ascii_bytes ''a:b:c'', 1), (ascii_bytes '':x'', 0)] \<and>
   colon_offset (ascii_bytes ''a:b:c'') = 1 \<and> colon_offset (ascii_bytes '':x'') = 0 \<and>
   colon_offset (ascii_bytes ''abc'') = -1"
  using getLines_field_offset
    [of "[ascii_bytes ''a:b:c'' @ [NewLine], ascii_bytes '':x'' @ [CarriageReturn]]"]
  by (simp add: evals)

text \<open>
  C9. Every pair yielded by \<open>getLines\<close>, for every chunking of every input: the line
  holds no \<open>\r\<close> and no \<open>\n\<close>, and \<open>fieldLength\<close> is \<open>-1\<close> when the line has no colon
  and the index of its first colon otherwise.
\<close>

theorem getLines_output_invariant:
  "\<forall>l \<in> set (getLines iter).
     CarriageReturn \<notin> set (fst l) \<and> NewLine \<notin> set (fst l) \<and>
     (if Colon \<in> set (fst l)
      then 0 \<le> snd l \<and> nat (snd l) < length (fst l) \<and> fst l ! nat (snd l) = Colon \<and>
           Colon \<notin> set (take (nat (snd l)) (fst l))
      else snd l = -1)"
proof
  fix l assume l: "l \<in> set (getLines iter)"
  obtain acc d where r: "split_lines [] False (concat iter) = (getLines iter, acc, d)"
    using getLines_run by blast
  from split_lines_offsets [OF r] l have o: "snd l = colon_offset (fst l)" by simp
  from split_lines_no_eol [OF r] l
  have e: "CarriageReturn \<notin> set (fst l) \<and> NewLine \<notin> set (fst l)" by simp
  show "CarriageReturn \<notin> set (fst l) \<and> NewLine \<notin> set (fst l) \<and>
     (if Colon \<in> set (fst l)
      then 0 \<le> snd l \<and> nat (snd l) < length (fst l) \<and> fst l ! nat (snd l) = Colon \<and>
           Colon \<notin> set (take (nat (snd l)) (fst l))
      else snd l = -1)"
    using e o colon_offset_index [of "fst l"] colon_offset_none [of "fst l"] by simp
qed

theorem getLines_output_invariant_witness:
  "getLines [[97, 58], [98, 58, 13], [10, 99, 10]] = [([97, 58, 98, 58], 1), ([99], -1)] \<and>
   CarriageReturn \<notin> set [97, 58, 98, 58] \<and> NewLine \<notin> set [97, 58, 98, 58] \<and>
   [97, 58, 98, 58] ! 1 = Colon \<and> Colon \<notin> set (take 1 [97, 58, 98, 58]) \<and>
   Colon \<notin> set [99 :: byte]"
  using getLines_output_invariant [of "[[97, 58], [98, 58, 13], [10, 99, 10]]"]
  by (simp add: evals)

text \<open>
  C8. What is not terminated when the input ends is dropped. For \<open>getLines\<close>: when the
  input is \<open>x\<close> followed by bytes \<open>t\<close> without a line end, the lines are those of \<open>x\<close>
  alone, in every chunking. For \<open>getMessages\<close>: lines \<open>g\<close> after the last empty line,
  none of them empty, add no message to those of the lines before them.
\<close>

theorem unterminated_tail_dropped:
  "(CarriageReturn \<notin> set t \<and> NewLine \<notin> set t \<and> concat iter = x @ t \<longrightarrow>
      getLines iter = getLines [x]) \<and>
   ((\<forall>l \<in> set g. fst l \<noteq> []) \<longrightarrow> getMessages (ls @ g) = getMessages ls)"
proof (intro conjI impI)
  assume a: "CarriageReturn \<notin> set t \<and> NewLine \<notin> set t \<and> concat iter = x @ t"
  obtain ls0 acc d where r: "split_lines [] False x = (ls0, acc, d)"
    by (cases "split_lines [] False x") auto
  from a have "fst (split_lines acc d t) = []"
    by (simp add: split_lines_tail)
  then obtain acc' d' where "split_lines acc d t = ([], acc', d')"
    by (cases "split_lines acc d t") auto
  with a r show "getLines iter = getLines [x]"
    by (simp add: getLines_split_lines split_lines_append)
next
  assume g: "\<forall>l \<in> set g. fst l \<noteq> []"
  obtain ms m where r: "getMessages_run emptyMessage ls = (ms, m)"
    by (cases "getMessages_run emptyMessage ls") auto
  from getMessages_run_group [OF g, of m] have "fst (getMessages_run m g) = []"
    by simp
  then obtain m' where "getMessages_run m g = ([], m')"
    by (cases "getMessages_run m g") auto
  with r show "getMessages (ls @ g) = getMessages ls"
    by (simp add: getMessages_def getMessages_run_append)
qed

theorem unterminated_tail_dropped_witness:
  "CarriageReturn \<notin> set (ascii_bytes ''id: 2'') \<and> NewLine \<notin> set (ascii_bytes ''id: 2'') \<and>
   concat [ascii_bytes ''data: x'' @ [NewLine], NewLine # ascii_bytes ''id'', ascii_bytes '': 2''] =
     (ascii_bytes ''data: x'' @ [NewLine, NewLine]) @ ascii_bytes ''id: 2'' \<and>
   getLines [ascii_bytes ''data: x'' @ [NewLine], NewLine # ascii_bytes ''id'', ascii_bytes '': 2''] =
     [(ascii_bytes ''data: x'', 4), ([], -1)] \<and>
   getMessages [(ascii_bytes ''data: x'', 4), ([], -1), (ascii_bytes ''id: 2'', 2)] =
     [emptyMessage\<lparr>data := Some (js_string ''x'')\<rparr>]"
proof -
  have 1: "CarriageReturn \<notin> set (ascii_bytes ''id: 2'') \<and> NewLine \<notin> set (ascii_bytes ''id: 2'') \<and>
   concat [ascii_bytes ''data: x'' @ [NewLine], NewLine # ascii_bytes ''id'', ascii_bytes '': 2''] =
     (ascii_bytes ''data: x'' @ [NewLine, NewLine]) @ ascii_bytes ''id: 2''"
    by (simp add: evals)
  have 2: "getLines [ascii_bytes ''data: x'' @ [NewLine, NewLine]] =
     [(ascii_bytes ''data: x'', 4), ([], -1)]"
    by (simp add: evals)
  have 3: "\<forall>l \<in> set [(ascii_bytes ''id: 2'', 2 :: int)]. fst l \<noteq> []"
    by (simp add: evals)
  have 4: "getMessages [(ascii_bytes ''data: x'', 4), ([], -1)] =
     [emptyMessage\<lparr>data := Some (js_string ''x'')\<rparr>]"
    by (simp add: evals)
  from unterminated_tail_dropped
    [of "ascii_bytes ''id: 2''"
        "[ascii_bytes ''data: x'' @ [NewLine], NewLine # ascii_bytes ''id'', ascii_bytes '': 2'']"
        "ascii_bytes ''data: x'' @ [NewLine, NewLine]"
        "[(ascii_bytes ''id: 2'', 2)]" "[(ascii_bytes ''data: x'', 4), ([], -1)]"]
    1 2 3 4
  show ?thesis by simp
qed

section \<open>Claims about \<open>getMessages\<close>\<close>

text \<open>
  C4. On an empty line the pending message is yielded exactly when it has a property,
  and \<open>message\<close> is then the empty object again; a second empty line right after yields
  nothing. For a group \<open>g\<close> of non-empty lines closed by an empty line, at the start of
  the stream or after an earlier empty line, one message is yielded if some line of the
  group sets a field and none otherwise. Lines that are all empty, comments or without
  separator yield no message.
\<close>

theorem getMessages_emission:
  "getMessages_line message ([], fl) =
     (if message \<noteq> emptyMessage then ([message], emptyMessage) else ([], emptyMessage)) \<and>
   fst (getMessages_line (snd (getMessages_line message ([], fl))) ([], fl')) = [] \<and>
   ((\<forall>l \<in> set g. fst l \<noteq> []) \<longrightarrow>
      (snd (getMessages_run emptyMessage g) \<noteq> emptyMessage \<longleftrightarrow> (\<exists>l \<in> set g. sets_field l)) \<and>
      getMessages (g @ [([], fl)]) =
        (if \<exists>l \<in> set g. sets_field l then [snd (getMessages_run emptyMessage g)] else []) \<and>
      getMessages (pre @ ([], fl') # g @ [([], fl)]) =
        getMessages (pre @ [([], fl')]) @
        (if \<exists>l \<in> set g. sets_field l then [snd (getMessages_run emptyMessage g)] else [])) \<and>
   ((\<forall>l \<in> set ls. fst l = [] \<or> snd l \<le> 0) \<longrightarrow> getMessages ls = [])"
proof (intro conjI impI)
  show "getMessages_line message ([], fl) =
     (if message \<noteq> emptyMessage then ([message], emptyMessage) else ([], emptyMessage))"
    by (rule getMessages_line_blank)
  show "fst (getMessages_line (snd (getMessages_line message ([], fl))) ([], fl')) = []"
    by (simp add: getMessages_line_blank)
next
  assume "\<forall>l \<in> set ls. fst l = [] \<or> snd l \<le> 0"
  then show "getMessages ls = []"
    by (simp add: getMessages_def getMessages_run_ignored)
next
  assume g: "\<forall>l \<in> set g. fst l \<noteq> []"
  note G = getMessages_run_group [OF g, of emptyMessage]
  from G show s: "snd (getMessages_run emptyMessage g) \<noteq> emptyMessage \<longleftrightarrow>
      (\<exists>l \<in> set g. sets_field l)"
    by simp
  obtain ms m where r: "getMessages_run emptyMessage g = (ms, m)"
    by (cases "getMessages_run emptyMessage g") auto
  with G s have ms: "ms = []" and m: "m \<noteq> emptyMessage \<longleftrightarrow> (\<exists>l \<in> set g. sets_field l)"
    by simp_all
  have run: "getMessages_run emptyMessage (g @ [([], fl)]) =
    (if \<exists>l \<in> set g. sets_field l then [m] else [], emptyMessage)"
    using r ms m by (simp add: getMessages_run_append getMessages_line_blank)
  then show "getMessages (g @ [([], fl)]) =
        (if \<exists>l \<in> set g. sets_field l then [snd (getMessages_run emptyMessage g)] else [])"
    using r by (simp add: getMessages_def)
  obtain ms1 m1 where p: "getMessages_run emptyMessage (pre @ [([], fl')]) = (ms1, m1)"
    by (cases "getMessages_run emptyMessage (pre @ [([], fl')])") auto
  from getMessages_run_blank_last [of emptyMessage pre fl'] p have m1: "m1 = emptyMessage"
    by simp
  have "pre @ ([], fl') # g @ [([], fl)] = (pre @ [([], fl')]) @ (g @ [([], fl)])"
    by simp
  then have "getMessages_run emptyMessage (pre @ ([], fl') # g @ [([], fl)]) =
    (ms1 @ (if \<exists>l \<in> set g. sets_field l then [m] else []), emptyMessage)"
    using p m1 run by (simp only: getMessages_run_append prod.case)
  then show "getMessages (pre @ ([], fl') # g @ [([], fl)]) =
        getMessages (pre @ [([], fl')]) @
        (if \<exists>l \<in> set g. sets_field l then [snd (getMessages_run emptyMessage g)] else [])"
    using p r by (simp add: getMessages_def)
qed

theorem getMessages_emission_witness:
  "getMessages_line (emptyMessage\<lparr>data := Some []\<rparr>) ([], -1) =
     ([emptyMessage\<lparr>data := Some []\<rparr>], emptyMessage) \<and>
   sets_field (ascii_bytes ''event: foo'', 5) \<and>
   getMessages [(ascii_bytes ''event: foo'', 5), ([], -1)] =
     [emptyMessage\<lparr>event := Some (js_string ''foo'')\<rparr>] \<and>
   getMessages [([], -1), ([], -1), (ascii_bytes ''event: foo'', 5), ([], -1)] =
     [emptyMessage\<lparr>event := Some (js_string ''foo'')\<rparr>] \<and>
   getMessages [(ascii_bytes '': c'', 0), ([], -1), (ascii_bytes ''x'', -1), ([], -1)] = []"
  using getMessages_emission
    [of "emptyMessage\<lparr>data := Some []\<rparr>" "-1" "-1" "[(ascii_bytes ''event: foo'', 5)]"
        "[([], -1)]" "[(ascii_bytes '': c'', 0), ([], -1), (ascii_bytes ''x'', -1), ([], -1)]"]
  by (simp add: evals sets_field_def)

text \<open>
  C5. A \<open>retry\<close> line whose value \<open>parseInt\<close> rejects leaves the message as it is,
  whatever \<open>retry\<close> it held, and the stream goes on as if the line were not there:
  removing the line changes neither the messages yielded nor the final state. A value
  that \<open>parseInt\<close> accepts overwrites \<open>retry\<close> with the integer parsed.
\<close>

theorem getMessages_retry:
  assumes "line \<noteq> []" and "0 < fl" and "field_name line fl = js_string ''retry''"
  shows "(parseInt (field_value line fl) = None \<longrightarrow>
            getMessages_line m (line, fl) = ([], m) \<and>
            getMessages_run m0 (pre @ (line, fl) # post) = getMessages_run m0 (pre @ post) \<and>
            getMessages (pre @ (line, fl) # post) = getMessages (pre @ post)) \<and>
         (\<forall>n. parseInt (field_value line fl) = Some n \<longrightarrow>
            getMessages_line m (line, fl) = ([], m\<lparr>retry := Some n\<rparr>))"
proof (intro conjI impI allI)
  fix n assume "parseInt (field_value line fl) = Some n"
  with assms show "getMessages_line m (line, fl) = ([], m\<lparr>retry := Some n\<rparr>)"
    by (simp add: getMessages_line_retry)
next
  assume n: "parseInt (field_value line fl) = None"
  with assms have l: "\<And>m. getMessages_line m (line, fl) = ([], m)"
    by (simp add: getMessages_line_retry)
  then show "getMessages_line m (line, fl) = ([], m)" .
  have "pre @ (line, fl) # post = pre @ [(line, fl)] @ post" by simp
  then show r: "getMessages_run m0 (pre @ (line, fl) # post) = getMessages_run m0 (pre @ post)"
    by (simp add: getMessages_run_append l split: prod.splits)
  have "getMessages_run emptyMessage (pre @ (line, fl) # post) =
        getMessages_run emptyMessage (pre @ post)"
    using \<open>pre @ (line, fl) # post = pre @ [(line, fl)] @ post\<close>
    by (simp add: getMessages_run_append l split: prod.splits)
  then show "getMessages (pre @ (line, fl) # post) = getMessages (pre @ post)"
    by (simp add: getMessages_def)
qed

theorem getMessages_retry_witness:
  "ascii_bytes ''retry: def'' \<noteq> [] \<and>
   field_name (ascii_bytes ''retry: def'') 5 = js_string ''retry'' \<and>
   parseInt (field_value (ascii_bytes ''retry: def'') 5) = None \<and>
   getMessages_line (emptyMessage\<lparr>retry := Some 7\<rparr>) (ascii_bytes ''retry: def'', 5) =
     ([], emptyMessage\<lparr>retry := Some 7\<rparr>) \<and>
   getMessages [(ascii_bytes ''id: abc'', 2), (ascii_bytes ''retry: def'', 5), ([], -1)] =
     [emptyMessage\<lparr>id_field := Some (js_string ''abc'')\<rparr>] \<and>
   getMessages (getLines [ascii_bytes ''retry: not-a-number'' @ [NewLine, NewLine]]) = [] \<and>
   parseInt (field_value (ascii_bytes ''retry: 42'') 5) = Some 42 \<and>
   getMessages_line (emptyMessage\<lparr>retry := Some 7\<rparr>) (ascii_bytes ''retry: 42'', 5) =
     ([], emptyMessage\<lparr>retry := Some 42\<rparr>)"
proof -
  have a: "ascii_bytes ''retry: def'' \<noteq> []" "(0::int) < 5"
    "field_name (ascii_bytes ''retry: def'') 5 = js_string ''retry''"
    by (simp_all add: evals)
  have b: "ascii_bytes ''retry: 42'' \<noteq> []"
    "field_name (ascii_bytes ''retry: 42'') 5 = js_string ''retry''"
    by (simp_all add: evals)
  have n: "parseInt (field_value (ascii_bytes ''retry: def'') 5) = None"
    by (simp add: evals)
  have s: "parseInt (field_value (ascii_bytes ''retry: 42'') 5) = Some 42"
    by (simp add: evals)
  have i: "getMessages [(ascii_bytes ''id: abc'', 2), ([], -1)] =
     [emptyMessage\<lparr>id_field := Some (js_string ''abc'')\<rparr>]"
    by (simp add: evals)
  have e: "getMessages (getLines [ascii_bytes ''retry: not-a-number'' @ [NewLine, NewLine]]) = []"
    by (simp add: evals)
  from getMessages_retry [OF a, of "emptyMessage\<lparr>retry := Some 7\<rparr>" emptyMessage
      "[(ascii_bytes ''id: abc'', 2)]" "[([], -1)]"]
    getMessages_retry [OF b(1) a(2) b(2), of "emptyMessage\<lparr>retry := Some 7\<rparr>"]
    a b n s i e
  show ?thesis by simp
qed

text \<open>
  C10. The \<open>retry\<close> value goes through \<open>parseInt\<close>, which reads a prefix: the value
  \<open>42abc\<close> sets \<open>retry\<close> to 42. A value is accepted exactly when it is white space, an
  optional sign and at least one digit, followed by anything; only the other values
  leave \<open>retry\<close> as it was.
\<close>

theorem retry_parseInt_lenient:
  "getMessages (getLines [ascii_bytes ''retry: 42abc'' @ [NewLine, NewLine]]) =
     [emptyMessage\<lparr>retry := Some 42\<rparr>] \<and>
   parseInt (js_string ''42abc'') = Some 42 \<and>
   parseInt (js_string '' +7 days'') = Some 7 \<and>
   parseInt (js_string ''abc42'') = None \<and>
   (\<forall>v. parseInt v \<noteq> None \<longleftrightarrow>
      (\<exists>ws sg ds rest. v = ws @ sg @ ds @ rest \<and> (\<forall>c \<in> set ws. isWhiteSpace c) \<and>
         (sg = [] \<or> sg = [0x2B] \<or> sg = [0x2D]) \<and> ds \<noteq> [] \<and> (\<forall>c \<in> set ds. isDigit c))) \<and>
   (\<forall>line fl m. line \<noteq> [] \<and> 0 < fl \<and> field_name line fl = js_string ''retry'' \<longrightarrow>
      retry (snd (getMessages_line m (line, fl))) =
        (case parseInt (field_value line fl) of None \<Rightarrow> retry m | Some n \<Rightarrow> Some n))"
proof -
  have 1: "getMessages (getLines [ascii_bytes ''retry: 42abc'' @ [NewLine, NewLine]]) =
     [emptyMessage\<lparr>retry := Some 42\<rparr>]"
    by (simp add: evals)
  have 2: "parseInt (js_string ''42abc'') = Some 42"
    by (simp add: evals)
  have 3: "parseInt (js_string '' +7 days'') = Some 7"
    by (simp add: evals)
  have 4: "parseInt (js_string ''abc42'') = None"
    by (simp add: evals)
  have 5: "\<forall>line fl m. line \<noteq> [] \<and> 0 < fl \<and> field_name line fl = js_string ''retry'' \<longrightarrow>
      retry (snd (getMessages_line m (line, fl))) =
        (case parseInt (field_value line fl) of None \<Rightarrow> retry m | Some n \<Rightarrow> Some n)"
    by (simp add: getMessages_line_retry split: option.splits)
  from 1 2 3 4 5 parseInt_accepts show ?thesis by blast
qed

theorem retry_parseInt_lenient_witness:
  "parseInt (js_string ''42abc'') \<noteq> None \<and>
   js_string ''42abc'' = [] @ [] @ js_string ''42'' @ js_string ''abc'' \<and>
   field_name (ascii_bytes ''retry:42abc'') 5 = js_string ''retry'' \<and>
   retry (snd (getMessages_line emptyMessage (ascii_bytes ''retry:42abc'', 5))) = Some 42"
  using retry_parseInt_lenient
  by (simp add: evals)

text \<open>
  C2. The claim has every \<open>data\<close> line append its value to the data of the message,
  after a newline when there is data already. The code assigns instead:
  \<open>message[field] = value\<close> replaces the data. So \<open>data:YHOO\<close>, \<open>data: +2\<close> and an
  empty line give the data \<open>+2\<close>, where the claim gives \<open>YHOO\n+2\<close>; the four data
  lines of the specification give \<open>10\<close>, where the claim gives \<open>YHOO\n+2\n\n10\<close>; and
  so do the lines of the test \<open>should append data split across multiple lines\<close>,
  given to \<open>getMessages\<close> with the offsets of the test.
\<close>

theorem data_lines_overwritten:
  "getMessages (getLines [ascii_bytes ''data:YHOO'' @ [NewLine] @ ascii_bytes ''data: +2'' @
      [NewLine, NewLine]]) = [emptyMessage\<lparr>data := Some (js_string ''+2'')\<rparr>] \<and>
   js_string ''+2'' \<noteq> js_string ''YHOO'' @ [0x0A] @ js_string ''+2'' \<and>
   getMessages (getLines [ascii_bytes ''data:YHOO'' @ [NewLine] @ ascii_bytes ''data: +2'' @
      [NewLine] @ ascii_bytes ''data'' @ [NewLine] @ ascii_bytes ''data: 10'' @
      [NewLine, NewLine]]) = [emptyMessage\<lparr>data := Some (js_string ''10'')\<rparr>] \<and>
   js_string ''10'' \<noteq>
     js_string ''YHOO'' @ [0x0A] @ js_string ''+2'' @ [0x0A, 0x0A] @ js_string ''10'' \<and>
   getMessages [(ascii_bytes ''data:YHOO'', 4), (ascii_bytes ''data: +2'', 4),
      (ascii_bytes ''data'', 4), (ascii_bytes ''data: 10'', 4), ([], -1)] =
     [emptyMessage\<lparr>data := Some (js_string ''10'')\<rparr>]"
  by (simp add: evals)

text \<open>
  C3, as the claim states it, fails: \<open>id: foo\<close>, a bare \<open>id\<close> and an empty line give
  one message whose id is \<open>foo\<close>.
\<close>

theorem id_reset_counterexample:
  "getMessages (getLines [ascii_bytes ''id: foo'' @ [NewLine] @ ascii_bytes ''id'' @
      [NewLine, NewLine]]) = [emptyMessage\<lparr>id_field := Some (js_string ''foo'')\<rparr>] \<and>
   js_string ''foo'' \<noteq> []"
  by (simp add: evals)

text \<open>
  C3, amended. An \<open>id\<close> line with a separator and an empty value sets the id to the
  empty string, over any earlier id, and the message then counts as not empty. A bare
  \<open>id\<close> line has no separator, so its offset is \<open>-1\<close> and it leaves the message as it
  is: \<open>id: foo\<close>, \<open>id:\<close> and an empty line give the id \<open>''\<close>, and with a bare \<open>id\<close>
  in place of \<open>id:\<close> the id stays \<open>foo\<close>.
\<close>

theorem id_reset_with_separator:
  "(line \<noteq> [] \<and> 0 < fl \<and> field_name line fl = js_string ''id'' \<and> field_value line fl = [] \<longrightarrow>
      getMessages_line m (line, fl) = ([], m\<lparr>id_field := Some []\<rparr>) \<and>
      m\<lparr>id_field := Some []\<rparr> \<noteq> emptyMessage) \<and>
   (line \<noteq> [] \<and> fl \<le> 0 \<longrightarrow> getMessages_line m (line, fl) = ([], m)) \<and>
   getLines [ascii_bytes ''id'' @ [NewLine]] = [(ascii_bytes ''id'', -1)] \<and>
   getMessages (getLines [ascii_bytes ''id: foo'' @ [NewLine] @ ascii_bytes ''id:'' @
      [NewLine, NewLine]]) = [emptyMessage\<lparr>id_field := Some []\<rparr>] \<and>
   getMessages (getLines [ascii_bytes ''id: foo'' @ [NewLine] @ ascii_bytes ''id'' @
      [NewLine, NewLine]]) = [emptyMessage\<lparr>id_field := Some (js_string ''foo'')\<rparr>] \<and>
   getMessages (getLines [ascii_bytes ''id:'' @ [NewLine, NewLine]]) =
     [emptyMessage\<lparr>id_field := Some []\<rparr>]"
proof -
  have 1: "getLines [ascii_bytes ''id'' @ [NewLine]] = [(ascii_bytes ''id'', -1)]"
    by (simp add: evals)
  have 2: "getMessages (getLines [ascii_bytes ''id: foo'' @ [NewLine] @ ascii_bytes ''id:'' @
      [NewLine, NewLine]]) = [emptyMessage\<lparr>id_field := Some []\<rparr>]"
    by (simp add: evals)
  have 3: "getMessages (getLines [ascii_bytes ''id: foo'' @ [NewLine] @ ascii_bytes ''id'' @
      [NewLine, NewLine]]) = [emptyMessage\<lparr>id_field := Some (js_string ''foo'')\<rparr>]"
    by (simp add: evals)
  have 4: "getMessages (getLines [ascii_bytes ''id:'' @ [NewLine, NewLine]]) =
     [emptyMessage\<lparr>id_field := Some []\<rparr>]"
    by (simp add: evals)
  have 5: "m\<lparr>id_field := Some []\<rparr> \<noteq> emptyMessage"
    by (rule nonempty_message) simp
  from 1 2 3 4 5 show ?thesis
    by (simp add: getMessages_line_id getMessages_line_ignored)
qed

theorem id_reset_with_separator_witness:
  "ascii_bytes ''id:'' \<noteq> [] \<and> field_name (ascii_bytes ''id:'') 2 = js_string ''id'' \<and>
   field_value (ascii_bytes ''id:'') 2 = [] \<and>
   getMessages_line (emptyMessage\<lparr>id_field := Some (js_string ''foo'')\<rparr>) (ascii_bytes ''id:'', 2) =
     ([], emptyMessage\<lparr>id_field := Some []\<rparr>) \<and>
   emptyMessage\<lparr>id_field := Some []\<rparr> \<noteq> emptyMessage \<and>
   getMessages_line (emptyMessage\<lparr>id_field := Some (js_string ''foo'')\<rparr>) (ascii_bytes ''id'', -1) =
     ([], emptyMessage\<lparr>id_field := Some (js_string ''foo'')\<rparr>)"
  using id_reset_with_separator
      [of "ascii_bytes ''id:''" 2 "emptyMessage\<lparr>id_field := Some (js_string ''foo'')\<rparr>"]
    id_reset_with_separator
      [of "ascii_bytes ''id''" "-1" "emptyMessage\<lparr>id_field := Some (js_string ''foo'')\<rparr>"]
  by (simp add: evals)

end
